theory Spec2Isabelle
  imports Complex_Main "HOL-Library.AList" "HOL-Library.Log_Nat" "HOL-Library.Sublist"
    "HOL-Library.Word"
begin

unbundle bit_operations_syntax

section \<open>The AM2315 poll plugin (am2315.py)\<close>

text \<open>
  The plugin is a Python module of five functions that work on a handle: a dict
  holding the configuration category and the open SMBus object. Dicts, lists and the bus
  are mutable objects, so they live in a store and values refer to them by address.
\<close>

subsection \<open>Exceptions, values and objects\<close>

text \<open>
  Instances of \<open>Exception\<close>. \<open>DataRetrievalError\<close> is
  \<open>foglamp.services.south.exceptions.DataRetrievalError\<close>, built with the caught
  exception as its argument.
\<close>

datatype exn =
    KeyError string
  | TypeError
  | ValueError
  | IndexError
  | AttributeError
  | ZeroDivisionError
  | OverflowError
  | OSError
  | OtherError string
  | DataRetrievalError exn

text \<open>Immutable values are kept as they are; a container or an object is a reference.\<close>

datatype pyval = PNone | PInt int | PStr string | PRef nat

text \<open>
  The SMBus object of the \<open>smbus\<close> extension module. What the device answers is
  outside the program: \<open>replies\<close> holds the outcome of each coming call (an
  exception, or the bytes read), \<open>calls\<close> records the calls made with their
  arguments. \<open>opened\<close> is the file descriptor being held.
\<close>

datatype bus_call = WriteBlock pyval int "int list" | ReadBlock pyval int int

record smbus =
  busnum :: int
  opened :: bool
  replies :: "(exn + int list) list"
  calls :: "bus_call list"

datatype pyobj = ODict "(string \<times> pyval) list" | OList "pyval list" | OBus smbus

datatype logrec = LogInfo string "pyval list" | LogException string exn

text \<open>
  The state a plugin call works on: the object store (an address is an index) and the
  records written through \<open>_LOGGER\<close>. A log record keeps the message template and the
  arguments formatted into it.
\<close>

record world =
  heap :: "pyobj list"
  logged :: "logrec list"

text \<open>
  What a call takes from outside the module: the device behind \<open>smbus.SMBus(1)\<close>
  (opening fails, or the device is there with its coming replies),
  \<open>utils.local_timestamp()\<close>, \<open>str(uuid.uuid4())\<close>, and Python's \<open>str\<close> of a
  container or object, which the plugin does not define.
\<close>

record env =
  device :: "exn + (exn + int list) list"
  local_timestamp :: "exn + string"
  uuid4 :: "exn + string"
  repr_obj :: "pyobj list \<Rightarrow> nat \<Rightarrow> string"

text \<open>
  A Python float is an IEEE-754 binary64 number. A finite one is kept as its sign and the
  two integers of its magnitude \<open>mantissa * 2 ^ exponent\<close>: both 0 for a zero,
  otherwise a mantissa from \<open>2 ^ 52\<close> up to below \<open>2 ^ 53\<close>, or a smaller
  one with the exponent -1074 for a subnormal number. Equal numbers of the same sign are
  then equal values.
\<close>

datatype pyfloat = PyFloat (negative: bool) (mantissa: int) (exponent: int)

definition float_val :: "pyfloat \<Rightarrow> rat" where
  "float_val f = (if negative f then - 1 else 1) * of_int (mantissa f) * 2 powi exponent f"

record sensor_values =
  temperature :: pyfloat
  humidity :: pyfloat

record reading =
  asset :: string
  timestamp :: string
  key :: string
  readings :: sensor_values

definition try_bind :: "exn + 'a \<Rightarrow> ('a \<Rightarrow> exn + 'b) \<Rightarrow> exn + 'b" where
  "try_bind r f = (case r of Inl ex \<Rightarrow> Inl ex | Inr x \<Rightarrow> f x)"

definition deref :: "pyobj list \<Rightarrow> nat \<Rightarrow> pyobj option" where
  "deref h a = (if a < length h then Some (h ! a) else None)"

text \<open>\<open>x[k]\<close> with a string key: only a dict accepts it; a missing key is a KeyError.\<close>

definition subscript :: "pyobj list \<Rightarrow> pyval \<Rightarrow> string \<Rightarrow> exn + pyval" where
  "subscript h x k =
     (case x of
        PRef a \<Rightarrow>
          (case deref h a of
             Some (ODict kvs) \<Rightarrow>
               (case map_of kvs k of Some v \<Rightarrow> Inr v | None \<Rightarrow> Inl (KeyError k))
           | _ \<Rightarrow> Inl TypeError)
      | _ \<Rightarrow> Inl TypeError)"

subsection \<open>Builtins the plugin calls\<close>

text \<open>\<open>hex(n)\<close>: sign, \<open>0x\<close>, lower-case digits without leading zeros.\<close>

fun hex_digits :: "nat \<Rightarrow> string" where
  "hex_digits n =
     (if n < 16 then [''0123456789abcdef'' ! n]
      else hex_digits (n div 16) @ [''0123456789abcdef'' ! (n mod 16)])"

declare hex_digits.simps [simp del]

definition py_hex :: "int \<Rightarrow> string" where
  "py_hex i =
     (if i < 0 then ''-0x'' @ hex_digits (nat (- i)) else ''0x'' @ hex_digits (nat i))"

fun dec_digits :: "nat \<Rightarrow> string" where
  "dec_digits n =
     (if n < 10 then [''0123456789'' ! n]
      else dec_digits (n div 10) @ [''0123456789'' ! (n mod 10)])"

declare dec_digits.simps [simp del]

text \<open>
  An object with the device traffic of a bus left out: what remains of an SMBus object is
  its number and whether it is open.
\<close>

definition bus_idle :: "pyobj \<Rightarrow> pyobj" where
  "bus_idle x = (case x of OBus b \<Rightarrow> OBus (b\<lparr>replies := [], calls := []\<rparr>) | _ \<Rightarrow> x)"

text \<open>
  \<open>'{}'.format(v)\<close>, that is \<open>str(v)\<close>. The text of a container shows its items and
  an SMBus object prints as its type and address, so the text is taken from the store
  without the traffic.
\<close>

definition py_format :: "env \<Rightarrow> pyobj list \<Rightarrow> pyval \<Rightarrow> string" where
  "py_format e h v =
     (case v of
        PStr s \<Rightarrow> s
      | PInt i \<Rightarrow> (if i < 0 then CHR ''-'' # dec_digits (nat (- i)) else dec_digits (nat i))
      | PNone \<Rightarrow> ''None''
      | PRef a \<Rightarrow> repr_obj e (map bus_idle h) a)"

text \<open>
  \<open>int(s, 16)\<close> as CPython parses it. A \<open>char\<close> is a code point below 256. The
  string is first brought to ASCII: a code point below 127 is kept (the separators U+001C
  to U+001F too, which are no white space for \<open>int\<close>), the white space beyond (U+0085
  and U+00A0) becomes a blank, and any other one, not being a decimal digit, becomes
  \<open>?\<close>. Then: white space around (blank, tab, line feed, vertical tab, form feed,
  carriage return), a sign, a \<open>0x\<close> or \<open>0X\<close> prefix (one underscore may follow it),
  then hex digits with single underscores between them. Anything else is a ValueError; a
  value that is not a string is a TypeError.
\<close>

definition to_ascii :: "char \<Rightarrow> char" where
  "to_ascii c =
     (if (of_char c :: nat) < 127 then c
      else if c = CHR 0x85 \<or> c = CHR 0xA0 then CHR '' ''
      else CHR ''?'')"

definition is_space :: "char \<Rightarrow> bool" where
  "is_space c = (c = CHR '' '' \<or> c = CHR 0x09 \<or> c = CHR 0x0A \<or> c = CHR 0x0B
                 \<or> c = CHR 0x0C \<or> c = CHR 0x0D)"

definition digit_val :: "char \<Rightarrow> nat option" where
  "digit_val c =
     (let n = (of_char c :: nat) in
      if 48 \<le> n \<and> n \<le> 57 then Some (n - 48)
      else if 97 \<le> n \<and> n \<le> 102 then Some (n - 87)
      else if 65 \<le> n \<and> n \<le> 70 then Some (n - 55)
      else None)"

fun scan_digits :: "bool \<Rightarrow> int \<Rightarrow> string \<Rightarrow> (int \<times> string) option" where
  "scan_digits prev_us acc [] = (if prev_us then None else Some (acc, []))"
| "scan_digits prev_us acc (c # cs) =
     (if c = CHR ''_'' then (if prev_us then None else scan_digits True acc cs)
      else case digit_val c of
             Some d \<Rightarrow> scan_digits False (acc * 16 + int d) cs
           | None \<Rightarrow> (if prev_us then None else Some (acc, c # cs)))"

definition strip_sign :: "string \<Rightarrow> int \<times> string" where
  "strip_sign s =
     (case s of
        c # cs \<Rightarrow> (if c = CHR ''+'' then (1, cs) else if c = CHR ''-'' then (- 1, cs) else (1, s))
      | [] \<Rightarrow> (1, s))"

definition strip_prefix :: "string \<Rightarrow> string" where
  "strip_prefix s =
     (case s of
        c # x # cs \<Rightarrow>
          (if c = CHR ''0'' \<and> (x = CHR ''x'' \<or> x = CHR ''X'')
           then (case cs of u # cs' \<Rightarrow> (if u = CHR ''_'' then cs' else cs) | [] \<Rightarrow> cs)
           else s)
      | _ \<Rightarrow> s)"

definition int16_of_string :: "string \<Rightarrow> exn + int" where
  "int16_of_string s =
     (let (sign, s1) = strip_sign (dropWhile is_space (map to_ascii s));
          s2 = strip_prefix s1
      in case s2 of
           [] \<Rightarrow> Inl ValueError
         | c # _ \<Rightarrow>
             (if digit_val c = None then Inl ValueError
              else case scan_digits False 0 s2 of
                     None \<Rightarrow> Inl ValueError
                   | Some (n, rest) \<Rightarrow>
                       (if dropWhile is_space rest = [] then Inr (sign * n)
                        else Inl ValueError)))"

definition py_int16 :: "pyval \<Rightarrow> exn + int" where
  "py_int16 v = (case v of PStr s \<Rightarrow> int16_of_string s | _ \<Rightarrow> Inl TypeError)"

text \<open>\<open>s.replace('%M', new)\<close>: every occurrence, left to right, none overlapping.\<close>

fun replace_M :: "string \<Rightarrow> string \<Rightarrow> string" where
  "replace_M new [] = []"
| "replace_M new [c] = [c]"
| "replace_M new (c # d # cs) =
     (if c = CHR ''%'' \<and> d = CHR ''M'' then new @ replace_M new cs
      else c # replace_M new (d # cs))"

text \<open>\<open>bytearray(xs)\<close> of a list of ints, and indexing it with a non-negative index.\<close>

definition bytearray :: "int list \<Rightarrow> exn + int list" where
  "bytearray xs = (if list_all (\<lambda>x. 0 \<le> x \<and> x < 256) xs then Inr xs else Inl ValueError)"

definition getitem :: "int list \<Rightarrow> nat \<Rightarrow> exn + int" where
  "getitem xs i = (if i < length xs then Inr (xs ! i) else Inl IndexError)"

text \<open>
  \<open>x / y\<close> on two ints (\<open>long_true_divide\<close>): ZeroDivisionError for a zero divisor,
  else the double nearest to the exact quotient, a tie going to the even mantissa, and
  OverflowError when that is beyond the largest double. \<open>round_half_even a b\<close> is the
  integer nearest to \<open>a / b\<close>; \<open>quotient_exponent a b\<close> is the \<open>k\<close> with
  \<open>2 ^ k \<le> a / b < 2 ^ (k + 1)\<close>. The mantissa is the quotient counted in units of
  \<open>2 ^ (k - 52)\<close>, from the normal range down in units of \<open>2 ^ - 1074\<close>, and rounded.
\<close>

definition round_half_even :: "int \<Rightarrow> int \<Rightarrow> int" where
  "round_half_even a b =
     (let q = a div b; r = a mod b
      in if b < 2 * r \<or> (2 * r = b \<and> odd q) then q + 1 else q)"

definition quotient_exponent :: "int \<Rightarrow> int \<Rightarrow> int" where
  "quotient_exponent a b =
     (let k = bitlen a - bitlen b
      in if a * 2 ^ nat (- k) < b * 2 ^ nat k then k - 1 else k)"

definition round_quotient :: "int \<Rightarrow> int \<Rightarrow> pyfloat" where
  "round_quotient x y =
     (let neg = ((x < 0) \<noteq> (y < 0)); a = \<bar>x\<bar>; b = \<bar>y\<bar>
      in if a = 0 then PyFloat neg 0 0
         else
           let e = max (quotient_exponent a b - 52) (- 1074);
               m = round_half_even (a * 2 ^ nat (- e)) (b * 2 ^ nat e)
           in if m = 0 then PyFloat neg 0 0
              else if m = 2 ^ 53 then PyFloat neg (2 ^ 52) (e + 1)
              else PyFloat neg m e)"

definition py_truediv :: "int \<Rightarrow> int \<Rightarrow> exn + pyfloat" where
  "py_truediv x y =
     (if y = 0 then Inl ZeroDivisionError
      else let f = round_quotient x y
           in if 971 < exponent f then Inl OverflowError else Inr f)"

subsection \<open>The bus transport\<close>

definition next_reply :: "smbus \<Rightarrow> (exn + int list) \<times> smbus" where
  "next_reply b =
     (case replies b of
        [] \<Rightarrow> (Inl OSError, b)
      | r # rs \<Rightarrow> (r, b\<lparr>replies := rs\<rparr>))"

definition write_i2c_block_data ::
  "smbus \<Rightarrow> pyval \<Rightarrow> int \<Rightarrow> int list \<Rightarrow> (exn + unit) \<times> smbus" where
  "write_i2c_block_data b addr cmd vals =
     (let (r, b') = next_reply (b\<lparr>calls := calls b @ [WriteBlock addr cmd vals]\<rparr>)
      in (case r of Inl ex \<Rightarrow> Inl ex | Inr _ \<Rightarrow> Inr (), b'))"

definition read_i2c_block_data ::
  "smbus \<Rightarrow> pyval \<Rightarrow> int \<Rightarrow> int \<Rightarrow> (exn + int list) \<times> smbus" where
  "read_i2c_block_data b addr cmd len =
     next_reply (b\<lparr>calls := calls b @ [ReadBlock addr cmd len]\<rparr>)"

text \<open>
  A method call \<open>bus.write_i2c_block_data(...)\<close> on whatever the handle holds under
  \<open>'bus'\<close>: only an SMBus object has the attribute.
\<close>

definition call_write ::
  "pyobj list \<Rightarrow> pyval \<Rightarrow> pyval \<Rightarrow> int \<Rightarrow> int list \<Rightarrow> (exn + unit) \<times> pyobj list" where
  "call_write h bus addr cmd vals =
     (case bus of
        PRef a \<Rightarrow>
          (case deref h a of
             Some (OBus b) \<Rightarrow>
               (let (r, b') = write_i2c_block_data b addr cmd vals in (r, h[a := OBus b']))
           | _ \<Rightarrow> (Inl AttributeError, h))
      | _ \<Rightarrow> (Inl AttributeError, h))"

definition call_read ::
  "pyobj list \<Rightarrow> pyval \<Rightarrow> pyval \<Rightarrow> int \<Rightarrow> int \<Rightarrow> (exn + int list) \<times> pyobj list" where
  "call_read h bus addr cmd len =
     (case bus of
        PRef a \<Rightarrow>
          (case deref h a of
             Some (OBus b) \<Rightarrow>
               (let (r, b') = read_i2c_block_data b addr cmd len in (r, h[a := OBus b']))
           | _ \<Rightarrow> (Inl AttributeError, h))
      | _ \<Rightarrow> (Inl AttributeError, h))"

subsection \<open>The checksum loop of plugin_poll\<close>

text \<open>
  Lines 136 to 144: \<open>calc_crc = 0xFFFF\<close>, then for each byte the XOR and the loop
  \<open>for i in range(1,9)\<close>. Python's ints are unbounded, so the accumulator is an
  \<open>int\<close>.
\<close>

definition crc_bit :: "int \<Rightarrow> int" where
  "crc_bit c = (if c AND 0x01 \<noteq> 0 then drop_bit 1 c XOR 0xA001 else drop_bit 1 c)"

definition crc_byte :: "int \<Rightarrow> int \<Rightarrow> int" where
  "crc_byte c byte = fold (\<lambda>i c. crc_bit c) [1..<9] (c XOR byte)"

definition calc_crc :: "int list \<Rightarrow> int" where
  "calc_crc bs = fold (\<lambda>byte c. crc_byte c byte) bs 0xFFFF"

subsection \<open>plugin_poll\<close>

text \<open>
  Lines 106 to 115, before the \<open>try\<close>: the bus, the configured address, \<open>sensor_add\<close>
  and the asset name. An exception here leaves the function as it is.
\<close>

definition poll_prelude ::
  "env \<Rightarrow> pyobj list \<Rightarrow> pyval \<Rightarrow> exn + (pyval \<times> pyval \<times> string)" where
  "poll_prelude e h handle =
     try_bind (subscript h handle ''bus'') (\<lambda>bus.
     try_bind (subscript h handle ''i2cAddress'') (\<lambda>item.
     try_bind (subscript h item ''value'') (\<lambda>i2c_address.
     try_bind (py_int16 i2c_address) (\<lambda>n.
     let sensor_add = PStr (py_hex n) in
     try_bind (subscript h handle ''assetName'') (\<lambda>an.
     try_bind (subscript h an ''value'') (\<lambda>tmpl.
     (case i2c_address of
        PStr a \<Rightarrow> Inr (bus, sensor_add, replace_M a (py_format e h tmpl))
      | _ \<Rightarrow> Inl TypeError)))))))"

text \<open>
  Lines 134 to 145: the received checksum \<open>sensor_response[7] * 256 + sensor_response[6]\<close>,
  the computed one over \<open>sensor_response[0:6]\<close>, and the test \<open>calc_crc != crc\<close>.
\<close>

definition checksum_mismatch :: "int list \<Rightarrow> exn + bool" where
  "checksum_mismatch sensor_response =
     try_bind (getitem sensor_response 7) (\<lambda>b7.
     try_bind (getitem sensor_response 6) (\<lambda>b6.
     let crc = b7 * 256 + b6;
         calc = calc_crc (take 6 sensor_response)
     in Inr (calc \<noteq> crc)))"

text \<open>
  Lines 128 to 156: the bytes, the two values, each a true division of an int by 10, the
  checksum test whose branch is \<open>pass\<close>, and the reading.
\<close>

definition assemble :: "env \<Rightarrow> string \<Rightarrow> int list \<Rightarrow> exn + reading" where
  "assemble e asset_name raw =
     try_bind (bytearray raw) (\<lambda>sensor_response.
     try_bind (getitem sensor_response 4) (\<lambda>b4.
     try_bind (getitem sensor_response 5) (\<lambda>b5.
     try_bind (py_truediv (b4 * 256 + b5) 10) (\<lambda>temperature.
     try_bind (getitem sensor_response 2) (\<lambda>b2.
     try_bind (getitem sensor_response 3) (\<lambda>b3.
     try_bind (py_truediv (b2 * 256 + b3) 10) (\<lambda>humidity.
     try_bind (checksum_mismatch sensor_response) (\<lambda>mismatch.
     let u = (if mismatch then () else ()) in
     try_bind (local_timestamp e) (\<lambda>time_stamp.
     try_bind (uuid4 e) (\<lambda>k.
     Inr \<lparr>asset = asset_name, timestamp = time_stamp, key = k,
          readings = \<lparr>temperature = temperature, humidity = humidity\<rparr>\<rparr>))))))))))"

text \<open>Lines 119 to 156, the body of the outer \<open>try\<close>.\<close>

definition poll_try ::
  "env \<Rightarrow> world \<Rightarrow> pyval \<Rightarrow> pyval \<Rightarrow> string \<Rightarrow> (exn + reading) \<times> world" where
  "poll_try e w bus sensor_add asset_name =
     (let (wake, h1) = call_write (heap w) bus sensor_add 0x03 [0x00, 0x04];
          (req, h2) = call_write h1 bus sensor_add 0x03 [0x00, 0x04]
      in case req of
           Inl ex \<Rightarrow> (Inl ex, w\<lparr>heap := h2\<rparr>)
         | Inr _ \<Rightarrow>
             (let (rd, h3) = call_read h2 bus sensor_add 0x03 8
              in case rd of
                   Inl ex \<Rightarrow> (Inl ex, w\<lparr>heap := h3\<rparr>)
                 | Inr raw \<Rightarrow> (assemble e asset_name raw, w\<lparr>heap := h3\<rparr>)))"

definition plugin_poll :: "env \<Rightarrow> world \<Rightarrow> pyval \<Rightarrow> (exn + reading) \<times> world" where
  "plugin_poll e w handle =
     (case poll_prelude e (heap w) handle of
        Inl ex \<Rightarrow> (Inl ex, w)
      | Inr (bus, sensor_add, asset_name) \<Rightarrow>
          (case poll_try e w bus sensor_add asset_name of
             (Inl ex, w') \<Rightarrow>
               (Inl (DataRetrievalError ex),
                w'\<lparr>logged := logged w' @ [LogException ''AM2315 exception: {}'' ex]\<rparr>)
           | (Inr data, w') \<Rightarrow> (Inr data, w')))"

subsection \<open>plugin_shutdown\<close>

text \<open>Line 191: one log record; the function falls off its end and returns None.\<close>

definition plugin_shutdown :: "world \<Rightarrow> pyval \<Rightarrow> (exn + pyval) \<times> world" where
  "plugin_shutdown w handle =
     (Inr PNone, w\<lparr>logged := logged w @ [LogInfo ''AM2315 poll plugin shut down.'' []]\<rparr>)"

subsection \<open>copy.deepcopy\<close>

text \<open>
  \<open>copy.deepcopy(x)\<close> of the standard library on the objects of the store. None, ints and
  strings are returned as they are. A dict or a list is copied into a new object, entered
  in the memo before its items are copied, so that an object met again is not copied
  twice; the new object gets the copied items (the library puts them in one by one;
  nothing reads the new object in between, so it is filled when its items are done). An
  SMBus object cannot be copied. The recursion is as deep as the objects nest: the first
  argument bounds that depth, and \<open>None\<close> is the recursion not ending within it.
\<close>

fun deepcopy ::
    "nat \<Rightarrow> (nat \<times> nat) list \<Rightarrow> pyobj list \<Rightarrow> pyval
       \<Rightarrow> ((exn + pyval) \<times> (nat \<times> nat) list \<times> pyobj list) option"
  and copy_values ::
    "nat \<Rightarrow> (nat \<times> nat) list \<Rightarrow> pyobj list \<Rightarrow> pyval list
       \<Rightarrow> ((exn + pyval list) \<times> (nat \<times> nat) list \<times> pyobj list) option"
where
  "deepcopy 0 memo h x = None"
| "deepcopy (Suc n) memo h x =
     (case x of
        PRef a \<Rightarrow>
          (case map_of memo a of
             Some y \<Rightarrow> Some (Inr (PRef y), memo, h)
           | None \<Rightarrow>
               (case deref h a of
                  Some (ODict kvs) \<Rightarrow>
                    (let y = length h in
                     case copy_values n ((a, y) # memo) (h @ [ODict []]) (map snd kvs) of
                       None \<Rightarrow> None
                     | Some (Inl ex, memo', h') \<Rightarrow> Some (Inl ex, memo', h')
                     | Some (Inr vs', memo', h') \<Rightarrow>
                         Some (Inr (PRef y), memo', h'[y := ODict (zip (map fst kvs) vs')]))
                | Some (OList vs) \<Rightarrow>
                    (let y = length h in
                     case copy_values n ((a, y) # memo) (h @ [OList []]) vs of
                       None \<Rightarrow> None
                     | Some (Inl ex, memo', h') \<Rightarrow> Some (Inl ex, memo', h')
                     | Some (Inr vs', memo', h') \<Rightarrow>
                         Some (Inr (PRef y), memo', h'[y := OList vs']))
                | _ \<Rightarrow> Some (Inl TypeError, memo, h)))
      | _ \<Rightarrow> Some (Inr x, memo, h))"
| "copy_values n memo h [] = Some (Inr [], memo, h)"
| "copy_values n memo h (v # vs) =
     (case deepcopy n memo h v of
        None \<Rightarrow> None
      | Some (Inl ex, memo', h') \<Rightarrow> Some (Inl ex, memo', h')
      | Some (Inr v', memo', h') \<Rightarrow>
          (case copy_values n memo' h' vs of
             None \<Rightarrow> None
           | Some (Inl ex, memo'', h'') \<Rightarrow> Some (Inl ex, memo'', h'')
           | Some (Inr vs', memo'', h'') \<Rightarrow> Some (Inr (v' # vs'), memo'', h'')))"

text \<open>
  \<open>x[k] = v\<close> with a string key: a dict takes the item, at the place of the key if it
  is there, at the end if not; nothing else accepts it.
\<close>

definition setitem ::
  "pyobj list \<Rightarrow> pyval \<Rightarrow> string \<Rightarrow> pyval \<Rightarrow> exn + pyobj list" where
  "setitem h x k v =
     (case x of
        PRef a \<Rightarrow>
          (case deref h a of
             Some (ODict kvs) \<Rightarrow> Inr (h[a := ODict (AList.update k v kvs)])
           | _ \<Rightarrow> Inl TypeError)
      | _ \<Rightarrow> Inl TypeError)"

subsection \<open>plugin_init and plugin_reconfigure\<close>

text \<open>
  A call of \<open>copy.deepcopy\<close> from the plugin starts with an empty memo. The memo keeps the
  recursion from entering an object twice, so it is never deeper than the store has
  objects.
\<close>

definition deepcopy_call ::
  "pyobj list \<Rightarrow> pyval \<Rightarrow> ((exn + pyval) \<times> pyobj list) option" where
  "deepcopy_call h x =
     (case deepcopy (Suc (length h)) [] h x of
        None \<Rightarrow> None
      | Some (r, memo, h') \<Rightarrow> Some (r, h'))"

text \<open>
  Lines 86 to 90. \<open>smbus.SMBus(1)\<close> opens the device file of bus 1 and gives a new
  object, or raises.
\<close>

definition plugin_init :: "env \<Rightarrow> world \<Rightarrow> pyval \<Rightarrow> ((exn + pyval) \<times> world) option" where
  "plugin_init e w config =
     (case deepcopy_call (heap w) config of
        None \<Rightarrow> None
      | Some (Inl ex, h1) \<Rightarrow> Some (Inl ex, w\<lparr>heap := h1\<rparr>)
      | Some (Inr data, h1) \<Rightarrow>
          (case device e of
             Inl ex \<Rightarrow> Some (Inl ex, w\<lparr>heap := h1\<rparr>)
           | Inr rs \<Rightarrow>
               (let bus = PRef (length h1);
                    h2 = h1 @ [OBus \<lparr>busnum = 1, opened = True, replies = rs, calls = []\<rparr>]
                in case setitem h2 data ''bus'' bus of
                     Inl ex \<Rightarrow> Some (Inl ex, w\<lparr>heap := h2\<rparr>)
                   | Inr h3 \<Rightarrow>
                       Some (Inr data,
                             w\<lparr>heap := h3,
                               logged := logged w @ [LogInfo ''AM2315 initialized'' []]\<rparr>))))"

text \<open>Lines 177 to 180.\<close>

definition plugin_reconfigure ::
  "world \<Rightarrow> pyval \<Rightarrow> pyval \<Rightarrow> ((exn + pyval) \<times> world) option" where
  "plugin_reconfigure w handle new_config =
     (let w1 = w\<lparr>logged := logged w @
                 [LogInfo ''Old config for AM2315 plugin {} \<newline> new config {}''
                    [handle, new_config]]\<rparr>
      in case deepcopy_call (heap w1) new_config of
           None \<Rightarrow> None
         | Some (Inl ex, h1) \<Rightarrow> Some (Inl ex, w1\<lparr>heap := h1\<rparr>)
         | Some (Inr new_handle, h1) \<Rightarrow>
             (case setitem h1 new_handle ''restart'' (PStr ''no'') of
                Inl ex \<Rightarrow> Some (Inl ex, w1\<lparr>heap := h1\<rparr>)
              | Inr h2 \<Rightarrow> Some (Inr new_handle, w1\<lparr>heap := h2\<rparr>)))"

subsection \<open>Configuration documents in the store\<close>

text \<open>
  The configuration handed to the plugin is a JSON document: None, numbers and strings,
  lists, and dicts with string keys, nested as a tree with no object in two places.
  \<open>doc_at h v t A\<close>: in the store \<open>h\<close> the value \<open>v\<close> is the document \<open>t\<close>, and
  \<open>A\<close> are the addresses of its containers.
\<close>

datatype json = JNone | JInt int | JStr string | JList "json list" | JDict "(string \<times> json) list"

inductive doc_at :: "pyobj list \<Rightarrow> pyval \<Rightarrow> json \<Rightarrow> nat set \<Rightarrow> bool"
  and docs_at :: "pyobj list \<Rightarrow> pyval list \<Rightarrow> json list \<Rightarrow> nat set \<Rightarrow> bool"
  for h :: "pyobj list"
where
  doc_none: "doc_at h PNone JNone {}"
| doc_int: "doc_at h (PInt i) (JInt i) {}"
| doc_str: "doc_at h (PStr s) (JStr s) {}"
| doc_list:
    "deref h a = Some (OList vs) \<Longrightarrow> docs_at h vs ts A \<Longrightarrow> a \<notin> A \<Longrightarrow>
     doc_at h (PRef a) (JList ts) (insert a A)"
| doc_dict:
    "deref h a = Some (ODict kvs) \<Longrightarrow> distinct (map fst kvs) \<Longrightarrow>
     docs_at h (map snd kvs) ts A \<Longrightarrow> a \<notin> A \<Longrightarrow>
     doc_at h (PRef a) (JDict (zip (map fst kvs) ts)) (insert a A)"
| docs_nil: "docs_at h [] [] {}"
| docs_cons:
    "doc_at h v t A \<Longrightarrow> docs_at h vs ts B \<Longrightarrow> A \<inter> B = {} \<Longrightarrow>
     docs_at h (v # vs) (t # ts) (A \<union> B)"

inductive_cases doc_at_dictE: "doc_at h v (JDict kts) A"

subsection \<open>CRC-16/MODBUS on machine words\<close>

text \<open>
  The reference the checksum loop is compared with: the catalogue algorithm on a 16-bit
  register, reflected polynomial \<open>0xA001\<close>, initial value \<open>0xFFFF\<close>, no final XOR, the
  message taken byte by byte.
\<close>

definition crc16_shift :: "16 word \<Rightarrow> 16 word" where
  "crc16_shift c = (if bit c 0 then drop_bit 1 c XOR 0xA001 else drop_bit 1 c)"

definition crc16_update :: "16 word \<Rightarrow> 8 word \<Rightarrow> 16 word" where
  "crc16_update c b = (crc16_shift ^^ 8) (c XOR ucast b)"

definition crc16_modbus :: "8 word list \<Rightarrow> 16 word" where
  "crc16_modbus bs = foldl crc16_update 0xFFFF bs"

subsection \<open>Rounding to double precision\<close>

text \<open>
  The finite doubles as they are kept here: a zero, a normal number with a mantissa of 53
  bits, or a subnormal one. A double is nearest to a rational number when no double is
  closer to it.
\<close>

definition is_double :: "pyfloat \<Rightarrow> bool" where
  "is_double f =
     ((mantissa f = 0 \<and> exponent f = 0)
      \<or> (2 ^ 52 \<le> mantissa f \<and> mantissa f < 2 ^ 53 \<and> - 1074 \<le> exponent f \<and> exponent f \<le> 971)
      \<or> (0 < mantissa f \<and> mantissa f < 2 ^ 52 \<and> exponent f = - 1074))"

definition nearest_double :: "pyfloat \<Rightarrow> rat \<Rightarrow> bool" where
  "nearest_double f q =
     (is_double f \<and> (\<forall>g. is_double g \<longrightarrow> \<bar>float_val f - q\<bar> \<le> \<bar>float_val g - q\<bar>))"

subsection \<open>Templates and their pieces\<close>

text \<open>
  \<open>sep.join(pieces)\<close>: the pieces with the separator between them. A template is the
  pieces around its tokens joined by the token.
\<close>

fun str_join :: "string \<Rightarrow> string list \<Rightarrow> string" where
  "str_join sep [] = []"
| "str_join sep [p] = p"
| "str_join sep (p # q # ps) = p @ sep @ str_join sep (q # ps)"

subsection \<open>A session with the default configuration\<close>

text \<open>
  The handle \<open>plugin_init\<close> leaves for the category of \<open>_DEFAULT_CONFIG\<close>: the items
  \<open>assetName\<close> and \<open>i2cAddress\<close> at addresses 0 and 1, the bus at 2, the handle at 3.
  The configured address and the replies of the device are left open.
\<close>

definition example_env :: env where
  "example_env =
     \<lparr>device = Inr [],
      local_timestamp = Inr ''2018-05-01 10:00:00.000000+00:00'',
      uuid4 = Inr ''0f1e2d3c-4b5a-4978-8695-a4b3c2d1e0f9'',
      repr_obj = (\<lambda>h a. ''{}'')\<rparr>"

definition example_world :: "string \<Rightarrow> (exn + int list) list \<Rightarrow> world" where
  "example_world addr rs =
     \<lparr>heap =
        [ODict [(''default'', PStr ''am2315/%M/''), (''value'', PStr ''am2315/%M/'')],
         ODict [(''default'', PStr ''0x5C''), (''value'', PStr addr)],
         OBus \<lparr>busnum = 1, opened = True, replies = rs, calls = []\<rparr>,
         ODict [(''assetName'', PRef 0), (''i2cAddress'', PRef 1), (''bus'', PRef 2)]],
      logged = []\<rparr>"

definition example_response :: "int list" where
  "example_response = [3, 4, 1, 2, 1, 8, 81, 130]"

text \<open>
  What releasing the transport of a handle would leave behind: the SMBus object under
  \<open>'bus'\<close> closed.
\<close>

definition transport_released :: "pyobj list \<Rightarrow> pyval \<Rightarrow> bool" where
  "transport_released h handle =
     (case subscript h handle ''bus'' of
        Inr (PRef a) \<Rightarrow> (case deref h a of Some (OBus b) \<Rightarrow> \<not> opened b | _ \<Rightarrow> False)
      | _ \<Rightarrow> False)"

text \<open>
  The configuration category as the caller holds it before \<open>plugin_init\<close>: the two item
  dicts at addresses 0 and 1, the category at 2; the document it is; and the store after
  \<open>plugin_init\<close> has run on it, with the handle at 3, the copied items at 4 and 5 and the
  bus at 6.
\<close>

definition example_config_world :: world where
  "example_config_world =
     \<lparr>heap =
        [ODict [(''default'', PStr ''am2315/%M/''), (''value'', PStr ''am2315/%M/'')],
         ODict [(''default'', PStr ''0x5C''), (''value'', PStr ''0x5C'')],
         ODict [(''assetName'', PRef 0), (''i2cAddress'', PRef 1)]],
      logged = []\<rparr>"

definition example_config_doc :: "(string \<times> json) list" where
  "example_config_doc =
     [(''assetName'', JDict [(''default'', JStr ''am2315/%M/''), (''value'', JStr ''am2315/%M/'')]),
      (''i2cAddress'', JDict [(''default'', JStr ''0x5C''), (''value'', JStr ''0x5C'')])]"

definition example_session :: world where
  "example_session =
     \<lparr>heap = heap example_config_world @
        [ODict [(''assetName'', PRef 4), (''i2cAddress'', PRef 5), (''bus'', PRef 6)],
         ODict [(''default'', PStr ''am2315/%M/''), (''value'', PStr ''am2315/%M/'')],
         ODict [(''default'', PStr ''0x5C''), (''value'', PStr ''0x5C'')],
         OBus \<lparr>busnum = 1, opened = True, replies = [], calls = []\<rparr>],
      logged = [LogInfo ''AM2315 initialized'' []]\<rparr>"

section \<open>Properties\<close>

subsection \<open>The store and the bus\<close>

lemma deref_update_bus:
  "deref h a = Some (OBus b) \<Longrightarrow> deref (h[a := OBus b']) a = Some (OBus b')"
  by (auto simp: deref_def split: if_splits)

lemma call_write_bus:
  assumes "deref h a = Some (OBus b)" and "replies b = r # rs"
  shows "call_write h (PRef a) addr cmd vals =
           ((case r of Inl ex \<Rightarrow> Inl ex | Inr _ \<Rightarrow> Inr ()),
            h[a := OBus (b\<lparr>calls := calls b @ [WriteBlock addr cmd vals], replies := rs\<rparr>)])"
  using assms by (simp add: call_write_def write_i2c_block_data_def next_reply_def)

lemma call_read_bus:
  assumes "deref h a = Some (OBus b)" and "replies b = r # rs"
  shows "call_read h (PRef a) addr cmd len =
           (r, h[a := OBus (b\<lparr>calls := calls b @ [ReadBlock addr cmd len], replies := rs\<rparr>)])"
  using assms by (simp add: call_read_def read_i2c_block_data_def next_reply_def)

lemma map_bus_idle_update:
  assumes "deref h a = Some (OBus b)" "busnum b' = busnum b" "opened b' = opened b"
  shows "map bus_idle (h[a := OBus b']) = map bus_idle h"
proof -
  from assms(1) have a: "a < length h" "h ! a = OBus b"
    by (auto simp: deref_def split: if_splits)
  have "bus_idle (OBus b') = bus_idle (h ! a)"
    using assms(2,3) a(2) by (simp add: bus_idle_def)
  then show ?thesis
    using a(1) by (simp add: map_update list_update_same_conv)
qed

lemma next_reply_keeps:
  "next_reply b = (r, b') \<Longrightarrow> busnum b' = busnum b \<and> opened b' = opened b"
  by (auto simp: next_reply_def split: list.splits)

lemma call_write_frame:
  "call_write h bus addr cmd vals = (r, h') \<Longrightarrow> map bus_idle h' = map bus_idle h"
  apply (auto simp: call_write_def write_i2c_block_data_def
              split: pyval.splits option.splits pyobj.splits prod.splits)
  apply (drule next_reply_keeps)
  apply (rule map_bus_idle_update, assumption)
   apply simp_all
  done

lemma call_read_frame:
  "call_read h bus addr cmd len = (r, h') \<Longrightarrow> map bus_idle h' = map bus_idle h"
  apply (auto simp: call_read_def read_i2c_block_data_def
              split: pyval.splits option.splits pyobj.splits prod.splits)
  apply (drule next_reply_keeps)
  apply (rule map_bus_idle_update, assumption)
   apply simp_all
  done

lemma bus_idle_dict: "bus_idle x = ODict kvs \<longleftrightarrow> x = ODict kvs"
  by (cases x) (auto simp: bus_idle_def)

lemma deref_dict_idle:
  assumes "map bus_idle h' = map bus_idle h"
  shows "deref h' a = Some (ODict kvs) \<longleftrightarrow> deref h a = Some (ODict kvs)"
proof -
  from assms have len: "length h' = length h"
    by (metis length_map)
  show ?thesis
  proof (cases "a < length h")
    case True
    then have "bus_idle (h' ! a) = bus_idle (h ! a)"
      using assms len by (metis nth_map)
    then show ?thesis
      using True len by (simp add: deref_def) (metis bus_idle_dict)
  next
    case False
    then show ?thesis using len by (simp add: deref_def)
  qed
qed

lemma subscript_idle:
  assumes "map bus_idle h' = map bus_idle h"
  shows "subscript h' x k = subscript h x k"
proof (cases x)
  case (PRef a)
  show ?thesis
  proof (cases "\<exists>kvs. deref h a = Some (ODict kvs)")
    case True
    then obtain kvs where d: "deref h a = Some (ODict kvs)" by blast
    then have "deref h' a = Some (ODict kvs)"
      using deref_dict_idle [OF assms] by simp
    with d PRef show ?thesis by (simp add: subscript_def)
  next
    case False
    then have a: "\<And>kvs. deref h a \<noteq> Some (ODict kvs)" by blast
    then have b: "\<And>kvs. deref h' a \<noteq> Some (ODict kvs)"
      using deref_dict_idle [OF assms] by simp
    from a b PRef show ?thesis
      by (auto simp: subscript_def split: option.splits pyobj.splits)
  qed
qed (simp_all add: subscript_def)

lemma poll_prelude_idle:
  assumes "map bus_idle h' = map bus_idle h"
  shows "poll_prelude e h' handle = poll_prelude e h handle"
proof -
  have "py_format e h' v = py_format e h v" for v
    using assms by (simp add: py_format_def split: pyval.splits)
  then have f: "py_format e h' = py_format e h"
    by (intro ext)
  have s: "subscript h' = subscript h"
    by (intro ext) (rule subscript_idle [OF assms])
  show ?thesis
    unfolding poll_prelude_def f s ..
qed

subsection \<open>True division of a 16-bit word by 10\<close>

lemma round_half_even_int:
  assumes "0 < b"
  shows "2 * \<bar>round_half_even a b * b - a\<bar> \<le> b"
proof -
  have d: "a = (a div b) * b + a mod b" by simp
  have r: "0 \<le> a mod b" "a mod b < b" using assms by simp_all
  show ?thesis
  proof (cases "b < 2 * (a mod b) \<or> (2 * (a mod b) = b \<and> odd (a div b))")
    case True
    then have m: "round_half_even a b = a div b + 1" by (simp add: round_half_even_def Let_def)
    have "(a div b + 1) * b - a = b - a mod b"
      using d by (simp add: algebra_simps)
    then show ?thesis using True r m by auto
  next
    case False
    then have m: "round_half_even a b = a div b" by (simp add: round_half_even_def Let_def)
    have "(a div b) * b - a = - (a mod b)"
      using d by (simp add: algebra_simps)
    then show ?thesis using False r m by auto
  qed
qed

lemma round_half_even_rat:
  assumes "0 < b"
  shows "\<bar>rat_of_int (round_half_even a b) - of_int a / of_int b\<bar> \<le> 1 / 2"
proof -
  let ?m = "round_half_even a b"
  have "rat_of_int (2 * \<bar>?m * b - a\<bar>) \<le> of_int b"
    using round_half_even_int [OF assms, of a] by (simp only: of_int_le_iff)
  then have "2 * \<bar>rat_of_int ?m * of_int b - of_int a\<bar> \<le> of_int b"
    by simp
  moreover have "rat_of_int ?m - of_int a / of_int b = (of_int ?m * of_int b - of_int a) / of_int b"
    using assms by (simp add: field_simps)
  ultimately show ?thesis
    using assms by (simp add: abs_divide field_simps)
qed


lemma bitlen_powi:
  assumes "0 < a"
  shows "(2::rat) powi (bitlen a - 1) \<le> of_int a" and "rat_of_int a < 2 powi bitlen a"
proof -
  have p: "1 \<le> bitlen a"
    using assms bitlen_eq_zero_iff [of a] bitlen_nonneg [of a] by linarith
  from bitlen_bounds [OF assms]
  have "rat_of_int (2 ^ nat (bitlen a - 1)) \<le> of_int a" "rat_of_int a < of_int (2 ^ nat (bitlen a))"
    by (simp_all only: of_int_le_iff of_int_less_iff)
  then show "(2::rat) powi (bitlen a - 1) \<le> of_int a" and "rat_of_int a < 2 powi bitlen a"
    using p by (simp_all add: power_int_def)
qed

lemma scaled_quotient:
  "rat_of_int (a * 2 ^ nat (- e)) / of_int (b * 2 ^ nat e) = of_int a / of_int b * 2 powi (- e)"
  by (cases "0 \<le> e") (simp_all add: power_int_def field_simps)

lemma scaled_less:
  assumes "0 < b"
  shows "a * 2 ^ nat (- k) < b * 2 ^ nat k \<longleftrightarrow> rat_of_int a / of_int b < 2 powi k"
proof -
  have "a * 2 ^ nat (- k) < b * 2 ^ nat k
          \<longleftrightarrow> rat_of_int (a * 2 ^ nat (- k)) < of_int (b * 2 ^ nat k)"
    by (simp only: of_int_less_iff)
  also have "\<dots> \<longleftrightarrow> rat_of_int (a * 2 ^ nat (- k)) / of_int (b * 2 ^ nat k) < 1"
    using assms by simp
  also have "\<dots> \<longleftrightarrow> rat_of_int a / of_int b * 2 powi (- k) < 1"
    by (simp only: scaled_quotient)
  also have "\<dots> \<longleftrightarrow> rat_of_int a / of_int b < 2 powi k"
  proof -
    have "(0::rat) < 2 powi k" by simp
    then show ?thesis
      using assms by (simp add: power_int_minus field_simps)
  qed
  finally show ?thesis .
qed

lemma quotient_exponent_bounds:
  assumes "0 < a" "0 < b"
  shows "(2::rat) powi quotient_exponent a b \<le> of_int a / of_int b"
    and "rat_of_int a / of_int b < 2 powi (quotient_exponent a b + 1)"
proof -
  let ?k = "bitlen a - bitlen b"
  let ?q = "rat_of_int a / of_int b"
  have b0: "0 < rat_of_int b" using assms(2) by simp
  have lo: "(2::rat) powi (?k - 1) \<le> ?q"
  proof -
    have "(2::rat) powi (?k - 1) * of_int b \<le> 2 powi (?k - 1) * 2 powi bitlen b"
      using bitlen_powi(2) [OF assms(2)] by (intro mult_left_mono) simp_all
    also have "\<dots> = 2 powi (bitlen a - 1)"
      by (simp add: power_int_add [symmetric])
    also have "\<dots> \<le> of_int a"
      by (rule bitlen_powi(1) [OF assms(1)])
    finally show ?thesis using b0 by (simp add: field_simps)
  qed
  have hi: "?q < 2 powi (?k + 1)"
  proof -
    have "rat_of_int a < 2 powi bitlen a"
      by (rule bitlen_powi(2) [OF assms(1)])
    also have "\<dots> = 2 powi (?k + 1) * 2 powi (bitlen b - 1)"
      by (simp add: power_int_add [symmetric])
    also have "\<dots> \<le> 2 powi (?k + 1) * of_int b"
      using bitlen_powi(1) [OF assms(2)] by (intro mult_left_mono) simp_all
    finally show ?thesis using b0 by (simp add: field_simps)
  qed
  show "(2::rat) powi quotient_exponent a b \<le> ?q"
    using lo scaled_less [OF assms(2), of a ?k]
    by (auto simp: quotient_exponent_def Let_def)
  show "?q < 2 powi (quotient_exponent a b + 1)"
    using hi scaled_less [OF assms(2), of a ?k]
    by (auto simp: quotient_exponent_def Let_def)
qed


lemma nearest_int:
  assumes "\<bar>rat_of_int m - x\<bar> \<le> 1 / 2"
  shows "\<bar>rat_of_int m - x\<bar> \<le> \<bar>rat_of_int j - x\<bar>"
proof (cases "j = m")
  case True
  then show ?thesis by simp
next
  case False
  then have "1 \<le> \<bar>j - m\<bar>" by simp
  then have "rat_of_int 1 \<le> of_int \<bar>j - m\<bar>"
    by (simp only: of_int_le_iff)
  then have "1 \<le> \<bar>rat_of_int j - of_int m\<bar>" by simp
  with assms show ?thesis by linarith
qed

lemma round_quotient_near:
  assumes "0 < a" "0 < b" and k: "- 1022 \<le> quotient_exponent a b"
  shows "\<exists>m e. round_quotient a b = PyFloat False m e \<and> 2 ^ 52 \<le> m \<and> m < 2 ^ 53
           \<and> (e = quotient_exponent a b - 52 \<or> e = quotient_exponent a b - 52 + 1)
           \<and> 2 * \<bar>rat_of_int m * 2 powi e - of_int a / of_int b\<bar> \<le> 2 powi e
           \<and> (\<forall>j. \<bar>rat_of_int m * 2 powi e - of_int a / of_int b\<bar>
                  \<le> \<bar>rat_of_int j * 2 powi (quotient_exponent a b - 52) - of_int a / of_int b\<bar>)"
proof -
  define e where "e = quotient_exponent a b - 52"
  define q where "q = rat_of_int a / of_int b"
  define A where "A = a * 2 ^ nat (- e)"
  define B where "B = b * 2 ^ nat e"
  define m where "m = round_half_even A B"
  define x where "x = q * 2 powi (- e)"
  have B: "0 < B" using assms(2) by (simp add: B_def)
  have x: "rat_of_int A / of_int B = x"
    unfolding A_def B_def x_def q_def by (rule scaled_quotient)
  have pe: "(0::rat) < 2 powi e" "(0::rat) < 2 powi (- e)" by simp_all
  have xe: "x * 2 powi e = q"
    by (simp add: x_def power_int_minus)
  have "2 powi (e + 52) \<le> q" "q < 2 powi (e + 53)"
    using quotient_exponent_bounds [OF assms(1,2)] by (simp_all add: e_def q_def add.commute)
  then have "2 powi (e + 52) * 2 powi (- e) \<le> x" "x < 2 powi (e + 53) * 2 powi (- e)"
    using pe(2) by (simp_all add: x_def)
  then have xr: "2 ^ 52 \<le> x" "x < 2 ^ 53"
    by (simp_all add: power_int_add [symmetric])
  have err: "\<bar>rat_of_int m - x\<bar> \<le> 1 / 2"
    using round_half_even_rat [OF B, of A] by (simp add: m_def x)
  have xn: "4503599627370496 \<le> x" "x < 9007199254740992"
    using xr by simp_all
  have e2: "rat_of_int m - x \<le> 1 / 2" "x - rat_of_int m \<le> 1 / 2"
    using err by (simp_all only: abs_le_iff minus_diff_eq)
  have "4503599627370495 < rat_of_int m" "rat_of_int m < 9007199254740993"
    using e2 xn by linarith+
  then have mr: "2 ^ 52 \<le> m" "m \<le> 2 ^ 53"
    by simp_all
  have scale: "\<bar>rat_of_int i * 2 powi e - q\<bar> = \<bar>of_int i - x\<bar> * 2 powi e" for i
  proof -
    have "rat_of_int i * 2 powi e - q = (of_int i - x) * 2 powi e"
      by (simp add: xe [symmetric] algebra_simps)
    then show ?thesis
      by (simp add: abs_mult)
  qed
  have bound: "2 * \<bar>rat_of_int m * 2 powi e - q\<bar> \<le> 2 powi e"
  proof -
    have "\<bar>of_int m - x\<bar> * 2 powi e \<le> 1 / 2 * 2 powi e"
      using err pe(1) by (intro mult_right_mono) simp_all
    then show ?thesis by (simp add: scale)
  qed
  have near: "\<bar>rat_of_int m * 2 powi e - q\<bar> \<le> \<bar>rat_of_int j * 2 powi e - q\<bar>" for j
  proof -
    have "\<bar>of_int m - x\<bar> * 2 powi e \<le> \<bar>of_int j - x\<bar> * 2 powi e"
      using nearest_int [OF err, of j] pe(1) by (intro mult_right_mono) simp_all
    then show ?thesis by (simp only: scale)
  qed
  have me: "max (quotient_exponent a b - 52) (- 1074) = e"
    using k by (simp add: e_def)
  have rq: "round_quotient a b =
              (if m = 2 ^ 53 then PyFloat False (2 ^ 52) (e + 1) else PyFloat False m e)"
    using assms(1,2) mr(1)
    by (simp add: round_quotient_def Let_def me m_def A_def B_def)
  have goal: "\<exists>m' e'. round_quotient a b = PyFloat False m' e' \<and> 2 ^ 52 \<le> m' \<and> m' < 2 ^ 53
           \<and> (e' = e \<or> e' = e + 1)
           \<and> 2 * \<bar>rat_of_int m' * 2 powi e' - q\<bar> \<le> 2 powi e'
           \<and> (\<forall>j. \<bar>rat_of_int m' * 2 powi e' - q\<bar> \<le> \<bar>rat_of_int j * 2 powi e - q\<bar>)"
  proof (cases "m = 2 ^ 53")
    case True
    have eqv: "rat_of_int (2 ^ 52) * 2 powi (e + 1) = of_int m * 2 powi e"
      using True by (simp add: power_int_add)
    have le: "(2::rat) powi e \<le> 2 powi (e + 1)"
      by (simp add: power_int_add)
    have c1: "round_quotient a b = PyFloat False (2 ^ 52) (e + 1)"
      using rq True by simp
    have c2: "2 * \<bar>rat_of_int (2 ^ 52) * 2 powi (e + 1) - q\<bar> \<le> 2 powi (e + 1)"
      unfolding eqv using bound le by linarith
    have c3: "\<forall>j. \<bar>rat_of_int (2 ^ 52) * 2 powi (e + 1) - q\<bar> \<le> \<bar>rat_of_int j * 2 powi e - q\<bar>"
      unfolding eqv using near by blast
    have c4: "(2::int) ^ 52 \<le> 2 ^ 52 \<and> (2::int) ^ 52 < 2 ^ 53" by simp
    show ?thesis
      apply (rule exI [where x = "2 ^ 52"])
      apply (rule exI [where x = "e + 1"])
      apply (intro conjI)
           apply (rule c1)
          apply (rule c4 [THEN conjunct1])
         apply (rule c4 [THEN conjunct2])
        apply (rule disjI2, rule refl)
       apply (rule c2)
      apply (rule c3)
      done
  next
    case False
    with mr have m53: "m < 2 ^ 53" by simp
    have c1: "round_quotient a b = PyFloat False m e"
      using rq False by simp
    have c3: "\<forall>j. \<bar>rat_of_int m * 2 powi e - q\<bar> \<le> \<bar>rat_of_int j * 2 powi e - q\<bar>"
      using near by blast
    show ?thesis
      apply (rule exI [where x = m])
      apply (rule exI [where x = e])
      apply (intro conjI)
           apply (rule c1)
          apply (rule mr(1))
         apply (rule m53)
        apply (rule disjI1, rule refl)
       apply (rule bound)
      apply (rule c3)
      done
  qed
  then show ?thesis
    unfolding e_def q_def .
qed

lemma round_quotient_normal:
  assumes "0 < a" "0 < b" and k: "- 1022 \<le> quotient_exponent a b"
  shows "\<exists>m e. round_quotient a b = PyFloat False m e \<and> 2 ^ 52 \<le> m \<and> m < 2 ^ 53
           \<and> (e = quotient_exponent a b - 52 \<or> e = quotient_exponent a b - 51)
           \<and> 2 * \<bar>rat_of_int m * 2 powi e - of_int a / of_int b\<bar> \<le> 2 powi e"
proof -
  from round_quotient_near [OF assms]
  obtain m e where "round_quotient a b = PyFloat False m e" "2 ^ 52 \<le> m" "m < 2 ^ 53"
    "e = quotient_exponent a b - 52 \<or> e = quotient_exponent a b - 52 + 1"
    "2 * \<bar>rat_of_int m * 2 powi e - of_int a / of_int b\<bar> \<le> 2 powi e"
    by blast
  moreover from this(4) have "e = quotient_exponent a b - 52 \<or> e = quotient_exponent a b - 51"
    by auto
  ultimately show ?thesis by blast
qed

lemma round_quotient_nearest:
  assumes "0 < a" "0 < b"
    and "- 1022 \<le> quotient_exponent a b" "quotient_exponent a b \<le> 1022"
  shows "nearest_double (round_quotient a b) (of_int a / of_int b)"
proof -
  define k where "k = quotient_exponent a b"
  define q where "q = rat_of_int a / of_int b"
  from round_quotient_near [OF assms(1-3)]
  obtain m e where f: "round_quotient a b = PyFloat False m e"
    and m: "2 ^ 52 \<le> m" "m < 2 ^ 53" and e: "e = k - 52 \<or> e = k - 52 + 1"
    and near: "\<And>j. \<bar>rat_of_int m * 2 powi e - q\<bar> \<le> \<bar>rat_of_int j * 2 powi (k - 52) - q\<bar>"
    unfolding k_def q_def by blast
  have v: "float_val (round_quotient a b) = of_int m * 2 powi e"
    by (simp add: f float_val_def)
  have qk: "2 powi k \<le> q"
    unfolding k_def q_def by (rule quotient_exponent_bounds(1) [OF assms(1,2)])
  have d: "is_double (round_quotient a b)"
    using m e assms(3,4) by (auto simp: is_double_def f k_def)
  have best: "\<bar>rat_of_int m * 2 powi e - q\<bar> \<le> \<bar>float_val g - q\<bar>" if g: "is_double g" for g
  proof (cases "float_val g < 2 powi k")
    case True
    have "rat_of_int (2 ^ 52) * 2 powi (k - 52) = 2 powi k"
      by (simp add: power_int_diff)
    then have "\<bar>rat_of_int m * 2 powi e - q\<bar> \<le> \<bar>2 powi k - q\<bar>"
      using near [of "2 ^ 52"] by simp
    with True qk show ?thesis by linarith
  next
    case False
    then have ge: "2 powi k \<le> float_val g" by simp
    have mg: "0 \<le> mantissa g" "mantissa g < 2 ^ 53"
      using g by (auto simp: is_double_def)
    have pos: "(0::rat) < 2 powi k" by simp
    have n: "\<not> negative g"
    proof
      assume "negative g"
      then have "float_val g = - (of_int (mantissa g) * 2 powi exponent g)"
        by (simp add: float_val_def)
      moreover have "(0::rat) \<le> of_int (mantissa g) * 2 powi exponent g"
        using mg(1) by simp
      ultimately show False using ge pos by linarith
    qed
    then have vg: "float_val g = of_int (mantissa g) * 2 powi exponent g"
      by (simp add: float_val_def)
    have "rat_of_int (mantissa g) < 2 ^ 53"
      using mg(2) by (simp flip: of_int_less_iff)
    then have "float_val g < 2 ^ 53 * 2 powi exponent g"
      unfolding vg by (intro mult_strict_right_mono) simp_all
    also have "\<dots> = 2 powi (53 + exponent g)"
      by (simp add: power_int_add)
    finally have "(2::rat) powi k < 2 powi (53 + exponent g)"
      using ge by simp
    then have "k < 53 + exponent g"
    proof (rule_tac ccontr)
      assume a: "(2::rat) powi k < 2 powi (53 + exponent g)" and "\<not> k < 53 + exponent g"
      then have "(2::rat) powi (53 + exponent g) \<le> 2 powi k"
        by (intro power_int_increasing) simp_all
      with a show False by simp
    qed
    then have t: "0 \<le> exponent g - (k - 52)" by simp
    define j where "j = mantissa g * 2 ^ nat (exponent g - (k - 52))"
    have "rat_of_int j * 2 powi (k - 52)
            = of_int (mantissa g) * (2 powi (exponent g - (k - 52)) * 2 powi (k - 52))"
      using t by (simp add: j_def power_int_def)
    also have "\<dots> = of_int (mantissa g) * 2 powi exponent g"
      by (simp add: power_int_add [symmetric])
    finally have "rat_of_int j * 2 powi (k - 52) = float_val g"
      by (simp add: vg)
    then show ?thesis using near [of j] by simp
  qed
  show ?thesis
    unfolding nearest_double_def q_def [symmetric] v using d best
    by (simp add: v q_def)
qed

lemma bitlen_10: "bitlen 10 = 4"
  by code_simp

lemma quotient_exponent_word:
  assumes "0 < n" "n < 65536"
  shows "- 4 \<le> quotient_exponent n 10" "quotient_exponent n 10 \<le> 12"
proof -
  have "bitlen n \<le> 16"
    using assms(2) by (simp add: bitlen_le_iff_power)
  moreover have "1 \<le> bitlen n"
    using assms(1) bitlen_eq_zero_iff [of n] bitlen_nonneg [of n] by linarith
  ultimately show "- 4 \<le> quotient_exponent n 10" "quotient_exponent n 10 \<le> 12"
    by (simp_all add: quotient_exponent_def Let_def bitlen_10)
qed

lemma tenth_exact:
  assumes "e < 0" and "rat_of_int m * 2 powi e = of_int n / 10"
  shows "5 dvd n"
proof -
  define s where "s = nat (- e)"
  have "(2::rat) powi e = 1 / 2 ^ s"
    using assms(1) by (simp add: power_int_def s_def field_simps)
  with assms(2) have "rat_of_int m * 10 = of_int n * 2 ^ s"
    by (simp add: field_simps)
  then have "rat_of_int (m * 10) = of_int (n * 2 ^ s)"
    by simp
  then have "m * 10 = n * 2 ^ s"
    by (simp only: of_int_eq_iff)
  then have "5 dvd n * 2 ^ s"
    by (metis dvd_triv_right dvd_mult_right mult.commute numeral_Bit0 mult_2 dvd_add dvd_mult2)
  moreover have "coprime (5::int) (2 ^ s)"
    by (rule coprime_power_right_iff [THEN iffD2]) simp
  ultimately show ?thesis
    by (simp add: coprime_dvd_mult_left_iff)
qed

lemma tenth_of_word:
  assumes "0 \<le> n" "n < 65536"
  shows "py_truediv n 10 = Inr (round_quotient n 10)"
    and "\<bar>float_val (round_quotient n 10) - of_int n / 10\<bar> \<le> 1 / 2 ^ 41"
    and "float_val (round_quotient n 10) = of_int n / 10 \<longleftrightarrow> 5 dvd n"
    and "nearest_double (round_quotient n 10) (of_int n / 10)"
proof -
  let ?f = "round_quotient n 10"
  let ?q = "rat_of_int n / 10"
  have all: "py_truediv n 10 = Inr ?f
      \<and> \<bar>float_val ?f - ?q\<bar> \<le> 1 / 2 ^ 41 \<and> (float_val ?f = ?q \<longleftrightarrow> 5 dvd n)
      \<and> nearest_double ?f ?q"
  proof (cases "n = 0")
    case True
    then show ?thesis
      by (simp add: py_truediv_def round_quotient_def float_val_def nearest_double_def
            is_double_def)
  next
    case False
    with assms(1) have n: "0 < n" by simp
    note k = quotient_exponent_word [OF n assms(2)]
    have "- 1022 \<le> quotient_exponent n 10" using k(1) by simp
    from round_quotient_normal [OF n _ this]
    obtain m e where f: "?f = PyFloat False m e" and m: "2 ^ 52 \<le> m" "m < 2 ^ 53"
      and e: "e = quotient_exponent n 10 - 52 \<or> e = quotient_exponent n 10 - 51"
      and b: "2 * \<bar>rat_of_int m * 2 powi e - ?q\<bar> \<le> 2 powi e"
      by auto
    have er: "- 56 \<le> e" "e \<le> - 39" using e k by auto
    have v: "float_val ?f = of_int m * 2 powi e"
      by (simp add: f float_val_def)
    have q: "?q < 65536 / 10" "0 < ?q" using assms(2) n by simp_all
    have e40: "e \<le> - 40"
    proof (rule ccontr)
      assume "\<not> e \<le> - 40"
      with er have e39: "e = - 39" by simp
      have "rat_of_int m \<ge> 4503599627370496" using m(1) by simp
      moreover have "2 * \<bar>rat_of_int m / 549755813888 - ?q\<bar> \<le> 1 / 549755813888"
        using b by (simp add: e39 power_int_minus)
      ultimately show False using q(1) by (simp add: abs_le_iff)
    qed
    have "(2::rat) powi e \<le> 2 powi (- 40)"
      using e40 by (intro power_int_increasing) simp_all
    then have p40: "(2::rat) powi e \<le> 1 / 2 ^ 40"
      by (simp add: power_int_minus field_simps)
    have a: "py_truediv n 10 = Inr ?f"
      using er by (simp add: py_truediv_def Let_def f)
    have c: "\<bar>float_val ?f - ?q\<bar> \<le> 1 / 2 ^ 41"
      using b p40 by (simp add: v)
    have d: "float_val ?f = ?q \<longleftrightarrow> 5 dvd n"
    proof
      assume "float_val ?f = ?q"
      then show "5 dvd n" using tenth_exact [of e m n] er by (simp add: v)
    next
      assume "5 dvd n"
      then obtain j where j: "n = 5 * j" by (auto simp: dvd_def)
      define s where "s = nat (- e - 1)"
      have pe: "(2::rat) powi e = 1 / (2 * 2 ^ s)"
        using er by (simp add: power_int_def s_def field_simps flip: power_Suc)
      have "2 * \<bar>rat_of_int m / (2 * 2 ^ s) - of_int j / 2\<bar> \<le> 1 / (2 * 2 ^ s)"
        using b by (simp add: pe j)
      then have "2 * \<bar>rat_of_int m - of_int j * 2 ^ s\<bar> \<le> 1"
        by (simp add: field_simps abs_le_iff)
      then have "2 * \<bar>rat_of_int (m - j * 2 ^ s)\<bar> \<le> 1"
        by simp
      then have "rat_of_int (2 * \<bar>m - j * 2 ^ s\<bar>) \<le> of_int 1"
        by simp
      then have "2 * \<bar>m - j * 2 ^ s\<bar> \<le> 1"
        by (simp only: of_int_le_iff)
      moreover have "2 * \<bar>d\<bar> \<le> 1 \<Longrightarrow> d = 0" for d :: int
        by arith
      ultimately have "m - j * 2 ^ s = 0" by blast
      then have "m = j * 2 ^ s" by simp
      then have "rat_of_int m * 2 powi e = of_int (5 * j) / 10"
        by (simp add: pe)
      then have "rat_of_int m * 2 powi e = ?q"
        by (simp only: j)
      then show "float_val ?f = ?q"
        by (simp only: v)
    qed
    have "nearest_double ?f (of_int n / of_int 10)"
      using k by (intro round_quotient_nearest [OF n]) simp_all
    then have nd: "nearest_double ?f ?q" by simp
    from a c d nd show ?thesis by blast
  qed
  from all show "py_truediv n 10 = Inr ?f" by blast
  from all show "\<bar>float_val ?f - ?q\<bar> \<le> 1 / 2 ^ 41" by blast
  from all show "float_val ?f = ?q \<longleftrightarrow> 5 dvd n" by blast
  from all show "nearest_double ?f ?q" by blast
qed

lemma word_of_bytes:
  fixes raw :: "int list"
  assumes "list_all (\<lambda>x. 0 \<le> x \<and> x < 256) raw" "i < length raw" "j < length raw"
  shows "0 \<le> raw ! i * 256 + raw ! j" "raw ! i * 256 + raw ! j < 65536"
proof -
  have "0 \<le> raw ! i \<and> raw ! i < 256" "0 \<le> raw ! j \<and> raw ! j < 256"
    using assms by (simp_all add: list_all_length)
  then show "0 \<le> raw ! i * 256 + raw ! j" "raw ! i * 256 + raw ! j < 65536"
    by simp_all
qed

subsection \<open>plugin_poll, step by step\<close>

lemma poll_try_frame:
  "poll_try e w bus sa an = (r, w') \<Longrightarrow>
     map bus_idle (heap w') = map bus_idle (heap w) \<and> logged w' = logged w"
  by (auto simp: poll_try_def split: prod.splits sum.splits
           dest!: call_write_frame call_read_frame)

lemma plugin_poll_idle:
  "map bus_idle (heap (snd (plugin_poll e w handle))) = map bus_idle (heap w)"
  by (auto simp: plugin_poll_def split: prod.splits sum.splits dest!: poll_try_frame)

lemma checksum_mismatch_eq:
  "length raw = 8 \<Longrightarrow>
     checksum_mismatch raw = Inr (calc_crc (take 6 raw) \<noteq> raw ! 7 * 256 + raw ! 6)"
  by (simp add: checksum_mismatch_def getitem_def try_bind_def)

lemma assemble_ok:
  assumes "length raw = 8" "list_all (\<lambda>x. 0 \<le> x \<and> x < 256) raw"
    and "local_timestamp e = Inr ts" "uuid4 e = Inr k"
  shows "assemble e an raw =
           Inr \<lparr>asset = an, timestamp = ts, key = k,
                readings = \<lparr>temperature = round_quotient (raw ! 4 * 256 + raw ! 5) 10,
                            humidity = round_quotient (raw ! 2 * 256 + raw ! 3) 10\<rparr>\<rparr>"
proof -
  have t: "py_truediv (raw ! 4 * 256 + raw ! 5) 10 = Inr (round_quotient (raw ! 4 * 256 + raw ! 5) 10)"
    using word_of_bytes [OF assms(2), of 4 5] assms(1) by (intro tenth_of_word(1)) simp_all
  have h: "py_truediv (raw ! 2 * 256 + raw ! 3) 10 = Inr (round_quotient (raw ! 2 * 256 + raw ! 3) 10)"
    using word_of_bytes [OF assms(2), of 2 3] assms(1) by (intro tenth_of_word(1)) simp_all
  show ?thesis
    using assms
    by (simp add: assemble_def bytearray_def getitem_def try_bind_def checksum_mismatch_eq t h)
qed

lemma poll_prelude_ok:
  assumes "subscript h handle ''bus'' = Inr bus"
    and "subscript h handle ''i2cAddress'' = Inr item"
    and "subscript h item ''value'' = Inr (PStr addr)"
    and "int16_of_string addr = Inr n"
    and "subscript h handle ''assetName'' = Inr an"
    and "subscript h an ''value'' = Inr tmpl"
  shows "poll_prelude e h handle =
           Inr (bus, PStr (py_hex n), replace_M addr (py_format e h tmpl))"
  using assms by (simp add: poll_prelude_def try_bind_def py_int16_def)

lemma poll_try_ok:
  assumes "deref (heap w) b = Some (OBus bus)"
    and "replies bus = wake # Inr x # Inr raw # rest"
    and "length raw = 8" "list_all (\<lambda>x. 0 \<le> x \<and> x < 256) raw"
    and "local_timestamp e = Inr ts" "uuid4 e = Inr k"
  shows "poll_try e w (PRef b) sa an =
           (Inr \<lparr>asset = an, timestamp = ts, key = k,
                readings = \<lparr>temperature = round_quotient (raw ! 4 * 256 + raw ! 5) 10,
                            humidity = round_quotient (raw ! 2 * 256 + raw ! 3) 10\<rparr>\<rparr>,
            w\<lparr>heap := (heap w)[b := OBus (bus\<lparr>calls := calls bus @
                 [WriteBlock sa 3 [0, 4], WriteBlock sa 3 [0, 4], ReadBlock sa 3 8],
                 replies := rest\<rparr>)]\<rparr>)"
  using assms
  by (simp add: poll_try_def call_write_bus call_read_bus deref_update_bus assemble_ok)

lemma plugin_poll_ok:
  assumes "poll_prelude e (heap w) handle = Inr (PRef b, sa, an)"
    and "deref (heap w) b = Some (OBus bus)"
    and "replies bus = wake # Inr x # Inr raw # rest"
    and "length raw = 8" "list_all (\<lambda>x. 0 \<le> x \<and> x < 256) raw"
    and "local_timestamp e = Inr ts" "uuid4 e = Inr k"
  shows "plugin_poll e w handle =
           (Inr \<lparr>asset = an, timestamp = ts, key = k,
                readings = \<lparr>temperature = round_quotient (raw ! 4 * 256 + raw ! 5) 10,
                            humidity = round_quotient (raw ! 2 * 256 + raw ! 3) 10\<rparr>\<rparr>,
            w\<lparr>heap := (heap w)[b := OBus (bus\<lparr>calls := calls bus @
                 [WriteBlock sa 3 [0, 4], WriteBlock sa 3 [0, 4], ReadBlock sa 3 8],
                 replies := rest\<rparr>)]\<rparr>)"
  using assms(1) poll_try_ok [OF assms(2-7)] by (simp add: plugin_poll_def)









subsection \<open>Substituting the token\<close>

lemma replace_M_piece:
  "\<not> sublist ''%M'' p \<Longrightarrow> replace_M new p = p"
  by (induction new p rule: replace_M.induct) (auto simp: sublist_Cons_right)

lemma replace_M_token:
  "\<not> sublist ''%M'' p \<Longrightarrow> replace_M new (p @ ''%M'' @ rest) = p @ new @ replace_M new rest"
proof (induction p)
  case Nil
  then show ?case by simp
next
  case (Cons c cs)
  then show ?case
    by (cases cs) (auto simp: sublist_Cons_right)
qed

lemma replace_M_join:
  "ps \<noteq> [] \<Longrightarrow> \<forall>p\<in>set ps. \<not> sublist ''%M'' p \<Longrightarrow>
     replace_M new (str_join ''%M'' ps) = str_join new ps"
proof (induction ps rule: induct_list012)
  case 1
  then show ?case by simp
next
  case (2 p)
  then show ?case by (simp add: replace_M_piece)
next
  case (3 p q ps)
  then have "replace_M new (str_join ''%M'' (q # ps)) = str_join new (q # ps)"
    by simp
  moreover have "\<not> sublist ''%M'' p"
    using "3.prems" by simp
  ultimately show ?case
    using replace_M_token [of p new "str_join ''%M'' (q # ps)"] by simp
qed

lemma str_join_Cons:
  "str_join sep ((c # p) # rest) = c # str_join sep (p # rest)"
  by (cases rest) simp_all

lemma split_on_token:
  "\<exists>ps. ps \<noteq> [] \<and> (\<forall>p\<in>set ps. \<not> sublist ''%M'' p) \<and> t = str_join ''%M'' ps"
proof (induction "[]::string" t rule: replace_M.induct)
  case 1
  have "[[]] \<noteq> [] \<and> (\<forall>p\<in>set [[]]. \<not> sublist ''%M'' p) \<and> [] = str_join ''%M'' [[]]"
    by simp
  then show ?case by blast
next
  case (2 c)
  have "[[c]] \<noteq> [] \<and> (\<forall>p\<in>set [[c]]. \<not> sublist ''%M'' p) \<and> [c] = str_join ''%M'' [[c]]"
    by (simp add: sublist_Cons_right)
  then show ?case by blast
next
  case (3 c d cs)
  show ?case
  proof (cases "c = CHR ''%'' \<and> d = CHR ''M''")
    case True
    with 3 obtain ps where ps: "ps \<noteq> []" "\<forall>p\<in>set ps. \<not> sublist ''%M'' p"
        "cs = str_join ''%M'' ps"
      by blast
    from ps(1) obtain q qs where q: "ps = q # qs" by (cases ps) auto
    have "[] # ps \<noteq> [] \<and> (\<forall>p\<in>set ([] # ps). \<not> sublist ''%M'' p)
            \<and> c # d # cs = str_join ''%M'' ([] # ps)"
      using True ps q by simp
    then show ?thesis by blast
  next
    case False
    with 3 obtain ps where ps: "ps \<noteq> []" "\<forall>p\<in>set ps. \<not> sublist ''%M'' p"
        "d # cs = str_join ''%M'' ps"
      by blast
    from ps(1) obtain q qs where q: "ps = q # qs" by (cases ps) auto
    have j: "c # d # cs = str_join ''%M'' ((c # q) # qs)"
      using ps(3) q by (simp add: str_join_Cons)
    have "\<not> sublist ''%M'' (c # q)"
    proof (cases q)
      case Nil
      then show ?thesis by (simp add: sublist_Cons_right)
    next
      case (Cons y ys)
      then have "y = d"
        using ps(3) q by (cases qs) simp_all
      then show ?thesis
        using False Cons ps(2) q by (auto simp: sublist_Cons_right)
    qed
    then have "(c # q) # qs \<noteq> [] \<and> (\<forall>p\<in>set ((c # q) # qs). \<not> sublist ''%M'' p)
            \<and> c # d # cs = str_join ''%M'' ((c # q) # qs)"
      using ps(2) q j by simp
    then show ?thesis by blast
  qed
qed

subsection \<open>The checksum loop and CRC-16/MODBUS\<close>

lemma crc_bit_uint: "crc_bit (uint w) = uint (crc16_shift w)"
proof -
  have "bit (uint w) 0 = bit w 0"
    by (simp add: bit_uint_iff)
  then have "uint w AND 1 \<noteq> 0 \<longleftrightarrow> bit w 0"
    by (simp add: and_one_eq bit_0 mod_2_eq_odd)
  moreover have "take_bit 16 (uint w) = uint w"
    by (rule take_bit_int_eq_self) (use uint_lt2p [of w] in simp_all)
  ultimately show ?thesis
    by (simp add: crc_bit_def crc16_shift_def uint_xor unsigned_drop_bit_eq)
qed

lemma uint_word8:
  "0 \<le> x \<Longrightarrow> x < 256 \<Longrightarrow> uint (word_of_int x :: 8 word) = x"
  by (simp add: uint_word_of_int_eq take_bit_int_eq_self)

lemma range_1_9: "[1..<9] = [1, 2, 3, 4, 5, 6, 7, 8::nat]"
  by code_simp

lemma crc_byte_uint:
  assumes "0 \<le> b" "b < 256"
  shows "crc_byte (uint w) b = uint (crc16_update w (word_of_int b))"
proof -
  have "uint (ucast (word_of_int b :: 8 word) :: 16 word) = b"
    using assms by (simp add: uint_up_ucast is_up uint_word8)
  then have "uint w XOR b = uint (w XOR ucast (word_of_int b :: 8 word))"
    by (simp add: uint_xor)
  then show ?thesis
    by (simp add: crc_byte_def crc16_update_def range_1_9 crc_bit_uint eval_nat_numeral)
qed

lemma fold_crc_uint:
  "list_all (\<lambda>x. 0 \<le> x \<and> x < 256) bs \<Longrightarrow>
     fold (\<lambda>byte c. crc_byte c byte) bs (uint w) = uint (foldl crc16_update w (map word_of_int bs))"
  by (induction bs arbitrary: w) (simp_all add: crc_byte_uint)

lemma calc_crc_uint:
  assumes "list_all (\<lambda>x. 0 \<le> x \<and> x < 256) bs"
  shows "calc_crc bs = uint (crc16_modbus (map word_of_int bs))"
proof -
  have "(0xFFFF :: int) = uint (0xFFFF :: 16 word)" by simp
  then show ?thesis
    unfolding calc_crc_def crc16_modbus_def using fold_crc_uint [OF assms] by metis
qed

lemma inj_crc16_shift: "inj crc16_shift"
proof (rule injI)
  fix x y :: "16 word"
  assume eq: "crc16_shift x = crc16_shift y"
  have top: "\<not> bit (drop_bit 1 z) 15" for z :: "16 word"
    by (auto simp: bit_drop_bit_eq dest: bit_imp_le_length)
  have a001: "bit (0xA001 :: 16 word) 15" by code_simp
  have b0: "bit x 0 = bit y 0"
  proof (rule ccontr)
    assume "bit x 0 \<noteq> bit y 0"
    then consider "bit x 0" "\<not> bit y 0" | "\<not> bit x 0" "bit y 0" by blast
    then show False
    proof cases
      case 1
      with eq have "drop_bit 1 x XOR 0xA001 = drop_bit 1 y" by (simp add: crc16_shift_def)
      then have "bit (drop_bit 1 x XOR 0xA001) 15 = bit (drop_bit 1 y) 15" by simp
      then show False using top a001 by (simp add: bit_xor_iff)
    next
      case 2
      with eq have "drop_bit 1 x = drop_bit 1 y XOR 0xA001" by (simp add: crc16_shift_def)
      then have "bit (drop_bit 1 x) 15 = bit (drop_bit 1 y XOR 0xA001) 15" by simp
      then show False using top a001 by (simp add: bit_xor_iff)
    qed
  qed
  have cancel: "a = b" if "a XOR c = b XOR c" for a b c :: "16 word"
  proof -
    from that have "(a XOR c) XOR c = (b XOR c) XOR c" by simp
    then show ?thesis by (simp add: xor.assoc)
  qed
  have d: "drop_bit 1 x = drop_bit 1 y"
  proof (cases "bit x 0")
    case True
    with b0 eq have "drop_bit 1 x XOR 0xA001 = drop_bit 1 y XOR 0xA001"
      by (simp add: crc16_shift_def)
    then show ?thesis by (rule cancel)
  next
    case False
    with b0 eq show ?thesis by (simp add: crc16_shift_def)
  qed
  show "x = y"
  proof (rule bit_eqI)
    fix n
    show "bit x n = bit y n"
    proof (cases n)
      case 0 then show ?thesis using b0 by simp
    next
      case (Suc m)
      have "bit (drop_bit 1 x) m = bit (drop_bit 1 y) m" using d by simp
      then show ?thesis using Suc by (simp add: bit_drop_bit_eq)
    qed
  qed
qed

lemma inj_crc16_update_state: "inj (\<lambda>c. crc16_update c b)"
proof (rule injI)
  fix x y assume "crc16_update x b = crc16_update y b"
  then have "x XOR ucast b = y XOR ucast b"
    unfolding crc16_update_def using inj_fn [OF inj_crc16_shift, of 8] by (simp add: inj_eq)
  then have "(x XOR ucast b) XOR ucast b = (y XOR ucast b) XOR ucast b" by simp
  then show "x = y" by (simp add: xor.assoc)
qed

lemma crc16_update_byte: "b \<noteq> b' \<Longrightarrow> crc16_update c b \<noteq> crc16_update c b'"
proof
  assume ne: "b \<noteq> b'" and "crc16_update c b = crc16_update c b'"
  then have "c XOR ucast b = c XOR ucast b'"
    unfolding crc16_update_def using inj_fn [OF inj_crc16_shift, of 8] by (simp add: inj_eq)
  then have "c XOR (c XOR ucast b) = c XOR (c XOR ucast b')" by simp
  then have "(ucast b :: 16 word) = ucast b'" by (simp add: xor.assoc [symmetric])
  then have "uint (ucast b :: 16 word) = uint (ucast b' :: 16 word)" by simp
  then have "uint b = uint b'" by (simp add: uint_up_ucast is_up)
  with ne show False by (simp add: word_uint_eq_iff)
qed

lemma foldl_crc16_inj: "c \<noteq> c' \<Longrightarrow> foldl crc16_update c bs \<noteq> foldl crc16_update c' bs"
proof (induction bs arbitrary: c c')
  case Nil then show ?case by simp
next
  case (Cons b bs)
  from Cons.prems have "crc16_update c b \<noteq> crc16_update c' b"
    using inj_crc16_update_state [of b] by (auto dest: injD)
  then show ?case using Cons.IH by simp
qed

lemma crc16_modbus_update:
  assumes "i < length bs" "v \<noteq> bs ! i"
  shows "crc16_modbus (bs[i := v]) \<noteq> crc16_modbus bs"
proof -
  let ?p = "take i bs" and ?s = "drop (Suc i) bs"
  have a: "bs = ?p @ bs ! i # ?s" using assms(1) by (rule id_take_nth_drop)
  have b: "bs[i := v] = ?p @ v # ?s" using assms(1) by (rule upd_conv_take_nth_drop)
  let ?c = "foldl crc16_update 0xFFFF ?p"
  have "crc16_update ?c v \<noteq> crc16_update ?c (bs ! i)"
    using assms(2) by (rule crc16_update_byte)
  then have "foldl crc16_update (crc16_update ?c v) ?s \<noteq> foldl crc16_update (crc16_update ?c (bs ! i)) ?s"
    by (rule foldl_crc16_inj)
  then have "crc16_modbus (?p @ v # ?s) \<noteq> crc16_modbus (?p @ bs ! i # ?s)"
    by (simp add: crc16_modbus_def)
  then show ?thesis using a b by simp
qed

lemma flip_bit_byte:
  fixes x :: int
  assumes "0 \<le> x" "x < 256" "j < 8"
  shows "0 \<le> x XOR 2 ^ j \<and> x XOR 2 ^ j < 256 \<and> x XOR 2 ^ j \<noteq> x"
proof -
  have p: "(2::int) ^ j < 2 ^ 8" using assms(3) by (intro power_strict_increasing) simp_all
  have "x XOR 2 ^ j < 2 ^ 8"
    using assms(1,2) p by (intro XOR_upper) simp_all
  moreover have "x XOR 2 ^ j \<noteq> x"
  proof
    assume "x XOR 2 ^ j = x"
    then have "x XOR (x XOR 2 ^ j) = x XOR x" by simp
    then have "(2::int) ^ j = 0" by (simp add: xor.assoc [symmetric])
    then show False by simp
  qed
  ultimately show ?thesis using assms(1) by simp
qed

lemma calc_crc_flip:
  assumes "list_all (\<lambda>x. 0 \<le> x \<and> x < 256) bs" "i < length bs" "j < 8"
  shows "calc_crc (bs[i := bs ! i XOR 2 ^ j]) \<noteq> calc_crc bs"
proof -
  let ?v = "bs ! i XOR 2 ^ j"
  have r: "0 \<le> bs ! i \<and> bs ! i < 256"
    using assms(1,2) by (simp add: list_all_length)
  then have v: "0 \<le> ?v \<and> ?v < 256 \<and> ?v \<noteq> bs ! i"
    using assms(3) flip_bit_byte by blast
  have all': "list_all (\<lambda>x. 0 \<le> x \<and> x < 256) (bs[i := ?v])"
    using assms(1) v by (auto simp: list_all_iff dest!: set_update_subset_insert [THEN subsetD])
  have "(word_of_int ?v :: 8 word) \<noteq> word_of_int (bs ! i)"
  proof
    assume "(word_of_int ?v :: 8 word) = word_of_int (bs ! i)"
    then have "uint (word_of_int ?v :: 8 word) = uint (word_of_int (bs ! i) :: 8 word)" by simp
    then show False using uint_word8 [of ?v] uint_word8 [of "bs ! i"] r v by metis
  qed
  then have "crc16_modbus ((map word_of_int bs)[i := word_of_int ?v])
               \<noteq> crc16_modbus (map word_of_int bs)"
    using assms(2) by (intro crc16_modbus_update) simp_all
  then have "uint (crc16_modbus (map word_of_int (bs[i := ?v])))
               \<noteq> uint (crc16_modbus (map word_of_int bs))"
    by (simp add: map_update word_uint_eq_iff)
  then show ?thesis
    using calc_crc_uint [OF assms(1)] calc_crc_uint [OF all'] by simp
qed


subsection \<open>The claims about plugin_poll\<close>

text \<open>
  C1 (amended). For every 8-byte response the device returns to a poll, the reading that
  \<open>plugin_poll\<close> returns has temperature (byte 4 * 256 + byte 5) / 10 and humidity
  (byte 2 * 256 + byte 3) / 10 as Python's true division gives them: a function of these
  four bytes alone, each the double nearest to the quotient, so within \<open>2 ^ - 41\<close> of
  the tenth, and the tenth itself exactly when the 16-bit word is a multiple of 5.
\<close>

theorem poll_decodes_response:
  assumes "poll_prelude e (heap w) handle = Inr (PRef b, sa, an)"
    and "deref (heap w) b = Some (OBus bus)"
    and "replies bus = wake # Inr x # Inr raw # rest"
    and "length raw = 8" and "list_all (\<lambda>x. 0 \<le> x \<and> x < 256) raw"
    and "local_timestamp e = Inr ts" and "uuid4 e = Inr k"
  shows "map_sum id readings (fst (plugin_poll e w handle)) =
           Inr \<lparr>temperature = round_quotient (raw ! 4 * 256 + raw ! 5) 10,
                humidity = round_quotient (raw ! 2 * 256 + raw ! 3) 10\<rparr>
       \<and> py_truediv (raw ! 4 * 256 + raw ! 5) 10 = Inr (round_quotient (raw ! 4 * 256 + raw ! 5) 10)
       \<and> py_truediv (raw ! 2 * 256 + raw ! 3) 10 = Inr (round_quotient (raw ! 2 * 256 + raw ! 3) 10)
       \<and> nearest_double (round_quotient (raw ! 4 * 256 + raw ! 5) 10)
            (of_int (raw ! 4 * 256 + raw ! 5) / 10)
       \<and> nearest_double (round_quotient (raw ! 2 * 256 + raw ! 3) 10)
            (of_int (raw ! 2 * 256 + raw ! 3) / 10)
       \<and> \<bar>float_val (round_quotient (raw ! 4 * 256 + raw ! 5) 10)
            - of_int (raw ! 4 * 256 + raw ! 5) / 10\<bar> \<le> 1 / 2 ^ 41
       \<and> \<bar>float_val (round_quotient (raw ! 2 * 256 + raw ! 3) 10)
            - of_int (raw ! 2 * 256 + raw ! 3) / 10\<bar> \<le> 1 / 2 ^ 41
       \<and> (float_val (round_quotient (raw ! 4 * 256 + raw ! 5) 10)
            = of_int (raw ! 4 * 256 + raw ! 5) / 10 \<longleftrightarrow> 5 dvd raw ! 4 * 256 + raw ! 5)
       \<and> (float_val (round_quotient (raw ! 2 * 256 + raw ! 3) 10)
            = of_int (raw ! 2 * 256 + raw ! 3) / 10 \<longleftrightarrow> 5 dvd raw ! 2 * 256 + raw ! 3)"
proof -
  have t: "0 \<le> raw ! 4 * 256 + raw ! 5" "raw ! 4 * 256 + raw ! 5 < 65536"
    using word_of_bytes [OF assms(5), of 4 5] assms(4) by simp_all
  have h: "0 \<le> raw ! 2 * 256 + raw ! 3" "raw ! 2 * 256 + raw ! 3 < 65536"
    using word_of_bytes [OF assms(5), of 2 3] assms(4) by simp_all
  have r: "map_sum id readings (fst (plugin_poll e w handle)) =
           Inr \<lparr>temperature = round_quotient (raw ! 4 * 256 + raw ! 5) 10,
                humidity = round_quotient (raw ! 2 * 256 + raw ! 3) 10\<rparr>"
    by (simp add: plugin_poll_ok [OF assms])
  from r tenth_of_word [OF t] tenth_of_word [OF h] show ?thesis
    by blast
qed

theorem poll_decodes_response_witness:
  "map_sum id readings
     (fst (plugin_poll example_env
        (example_world ''0x5C'' [Inl OSError, Inr [], Inr [3, 4, 1, 2, 1, 8, 81, 130]])
        (PRef 3))) =
   Inr \<lparr>temperature = PyFloat False 7430939385161318 (- 48),
        humidity = PyFloat False 7262054399134925 (- 48)\<rparr>
   \<and> \<bar>float_val (PyFloat False 7430939385161318 (- 48)) - 264 / 10\<bar> \<le> 1 / 2 ^ 41
   \<and> float_val (PyFloat False 7430939385161318 (- 48)) \<noteq> 264 / 10
   \<and> \<bar>float_val (PyFloat False 7430939385161318 (- 48)) - 264 / 10\<bar>
       \<le> \<bar>float_val (PyFloat False 7430939385161319 (- 48)) - 264 / 10\<bar>"
proof -
  let ?rs = "[Inl OSError, Inr [], Inr [3, 4, 1, 2, 1, 8, 81, 130]]"
  have p: "poll_prelude example_env (heap (example_world ''0x5C'' ?rs)) (PRef 3) =
             Inr (PRef 2, PStr ''0x5c'', ''am2315/0x5C/'')"
    by code_simp
  have d: "deref (heap (example_world ''0x5C'' ?rs)) 2 =
             Some (OBus \<lparr>busnum = 1, opened = True, replies = ?rs, calls = []\<rparr>)"
    by (simp add: example_world_def deref_def)
  have t: "round_quotient 264 10 = PyFloat False 7430939385161318 (- 48)"
    by code_simp
  have h: "round_quotient 258 10 = PyFloat False 7262054399134925 (- 48)"
    by code_simp
  note c = poll_decodes_response [OF p d, of "Inl OSError" "[]" "[3, 4, 1, 2, 1, 8, 81, 130]" "[]"
      "''2018-05-01 10:00:00.000000+00:00''" "''0f1e2d3c-4b5a-4978-8695-a4b3c2d1e0f9''"]
  have c': "map_sum id readings (fst (plugin_poll example_env (example_world ''0x5C'' ?rs) (PRef 3))) =
           Inr \<lparr>temperature = round_quotient 264 10, humidity = round_quotient 258 10\<rparr>
       \<and> \<bar>float_val (round_quotient 264 10) - 264 / 10\<bar> \<le> 1 / 2 ^ 41
       \<and> (float_val (round_quotient 264 10) = 264 / 10 \<longleftrightarrow> (5::int) dvd 264)
       \<and> nearest_double (round_quotient 264 10) (264 / 10)"
    using c by (simp add: example_env_def)
  then have n: "nearest_double (PyFloat False 7430939385161318 (- 48)) (264 / 10)"
    by (simp add: t)
  have g: "is_double (PyFloat False 7430939385161319 (- 48))"
    by (simp add: is_double_def)
  have "\<bar>float_val (PyFloat False 7430939385161318 (- 48)) - 264 / 10\<bar>
       \<le> \<bar>float_val (PyFloat False 7430939385161319 (- 48)) - 264 / 10\<bar>"
    using n [unfolded nearest_double_def, THEN conjunct2, rule_format, OF g] .
  with c' show ?thesis
    by (simp add: t h)
qed

theorem poll_decodes_response_counterexample:
  "map_sum id (\<lambda>r. float_val (temperature (readings r)))
     (fst (plugin_poll example_env
        (example_world ''0x5C'' [Inl OSError, Inr [], Inr example_response]) (PRef 3)))
     = Inr (3715469692580659 / 140737488355328)
   \<and> map_sum id (\<lambda>r. float_val (temperature (readings r)))
     (fst (plugin_poll example_env
        (example_world ''0x5C'' [Inl OSError, Inr [], Inr example_response]) (PRef 3)))
     \<noteq> Inr (264 / 10)"
  by code_simp

lemma crc16_modbus_check_value:
  "crc16_modbus [0x31, 0x32, 0x33, 0x34, 0x35, 0x36, 0x37, 0x38, 0x39] = 0x4B37"
proof -
  let ?m = "[0x31, 0x32, 0x33, 0x34, 0x35, 0x36, 0x37, 0x38, 0x39] :: int list"
  have "calc_crc ?m = 0x4B37"
    by code_simp
  moreover have "calc_crc ?m = uint (crc16_modbus (map word_of_int ?m))"
    by (rule calc_crc_uint) simp
  ultimately have "uint (crc16_modbus (map word_of_int ?m)) = uint (0x4B37 :: 16 word)"
    by simp
  then show ?thesis
    by (simp add: word_uint_eq_iff)
qed

text \<open>
  C2. The checksum \<open>plugin_poll\<close> computes is CRC-16/MODBUS of the first six bytes of
  the response: it is the 16-bit reference algorithm on those bytes, the value it is
  compared with is byte 7 * 256 + byte 6 (byte 6 the low-order byte), flipping any one bit
  of the first six bytes changes it, and bytes 6 and 7 do not enter it.
\<close>

theorem checksum_is_crc16_modbus:
  assumes "length raw = 8" and "list_all (\<lambda>x. 0 \<le> x \<and> x < 256) raw"
  shows "checksum_mismatch raw = Inr (calc_crc (take 6 raw) \<noteq> raw ! 7 * 256 + raw ! 6)
       \<and> calc_crc (take 6 raw) = uint (crc16_modbus (map word_of_int (take 6 raw)))
       \<and> (raw ! 7 * 256 + raw ! 6) mod 256 = raw ! 6
       \<and> (raw ! 7 * 256 + raw ! 6) div 256 = raw ! 7
       \<and> (\<forall>i<6. \<forall>j<8. calc_crc (take 6 (raw[i := raw ! i XOR 2 ^ j])) \<noteq> calc_crc (take 6 raw))
       \<and> (\<forall>y z. calc_crc (take 6 (raw[6 := y, 7 := z])) = calc_crc (take 6 raw))"
proof -
  have six: "list_all (\<lambda>x. 0 \<le> x \<and> x < 256) (take 6 raw)"
    using assms(2) by (auto simp: list_all_iff dest: in_set_takeD)
  have r: "0 \<le> raw ! 6 \<and> raw ! 6 < 256" "0 \<le> raw ! 7 \<and> raw ! 7 < 256"
    using assms by (simp_all add: list_all_length)
  have flip: "calc_crc (take 6 (raw[i := raw ! i XOR 2 ^ j])) \<noteq> calc_crc (take 6 raw)"
    if "i < 6" "j < 8" for i j
  proof -
    have "take 6 (raw[i := raw ! i XOR 2 ^ j]) = (take 6 raw)[i := take 6 raw ! i XOR 2 ^ j]"
      using that(1) by (simp add: take_update_swap)
    moreover have "i < length (take 6 raw)"
      using that(1) assms(1) by simp
    ultimately show ?thesis
      using calc_crc_flip [OF six _ that(2), of i] by simp
  qed
  have a: "checksum_mismatch raw = Inr (calc_crc (take 6 raw) \<noteq> raw ! 7 * 256 + raw ! 6)"
    using assms(1) by (rule checksum_mismatch_eq)
  have b: "calc_crc (take 6 raw) = uint (crc16_modbus (map word_of_int (take 6 raw)))"
    using six by (rule calc_crc_uint)
  have c: "(raw ! 7 * 256 + raw ! 6) mod 256 = raw ! 6" "(raw ! 7 * 256 + raw ! 6) div 256 = raw ! 7"
    using r by simp_all
  have d: "calc_crc (take 6 (raw[6 := y, 7 := z])) = calc_crc (take 6 raw)" for y z
    by simp
  from a b c d flip show ?thesis by blast
qed

theorem checksum_is_crc16_modbus_witness:
  "checksum_mismatch example_response = Inr False
   \<and> calc_crc (take 6 example_response) = 0x8251
   \<and> calc_crc (take 6 (example_response[3 := example_response ! 3 XOR 2 ^ 2]))
       \<noteq> calc_crc (take 6 example_response)"
proof -
  have len: "length example_response = 8"
    by (simp add: example_response_def)
  have rng: "list_all (\<lambda>x. 0 \<le> x \<and> x < 256) example_response"
    by (simp add: example_response_def)
  note t = checksum_is_crc16_modbus [OF len rng]
  have v: "calc_crc (take 6 example_response) = 0x8251"
    by code_simp
  have e: "example_response ! 7 * 256 + example_response ! 6 = 0x8251"
    by (simp add: example_response_def)
  from t [THEN conjunct1] v e have m: "checksum_mismatch example_response = Inr False"
    by simp
  have f: "calc_crc (take 6 (example_response[3 := example_response ! 3 XOR 2 ^ 2]))
       \<noteq> calc_crc (take 6 example_response)"
    by (rule t [THEN conjunct2, THEN conjunct2, THEN conjunct2, THEN conjunct2, THEN conjunct1,
                rule_format]) simp_all
  from m v f show ?thesis by blast
qed

text \<open>
  C3. A response whose checksum does not match is accepted like any other: the poll
  returns the reading, raises nothing and logs nothing, and the outcome is the one a
  response with the same first six bytes and any other last two bytes gives.
\<close>

theorem poll_ignores_checksum_mismatch:
  assumes "poll_prelude e (heap w) handle = Inr (PRef b, sa, an)"
    and "deref (heap w) b = Some (OBus bus)"
    and "replies bus = wake # Inr x # Inr raw # rest"
    and "length raw = 8" and "list_all (\<lambda>x. 0 \<le> x \<and> x < 256) raw"
    and "local_timestamp e = Inr ts" and "uuid4 e = Inr k"
    and "checksum_mismatch raw = Inr True"
  shows "fst (plugin_poll e w handle) =
           Inr \<lparr>asset = an, timestamp = ts, key = k,
                readings = \<lparr>temperature = round_quotient (raw ! 4 * 256 + raw ! 5) 10,
                            humidity = round_quotient (raw ! 2 * 256 + raw ! 3) 10\<rparr>\<rparr>
       \<and> logged (snd (plugin_poll e w handle)) = logged w
       \<and> (\<forall>y z. 0 \<le> y \<and> y < 256 \<and> 0 \<le> z \<and> z < 256 \<longrightarrow>
            plugin_poll e
              (w\<lparr>heap := (heap w)[b := OBus (bus\<lparr>replies :=
                    wake # Inr x # Inr (raw[6 := y, 7 := z]) # rest\<rparr>)]\<rparr>) handle =
            plugin_poll e w handle)"
proof -
  note ok = plugin_poll_ok [OF assms(1-7)]
  have other: "plugin_poll e
              (w\<lparr>heap := (heap w)[b := OBus (bus\<lparr>replies :=
                    wake # Inr x # Inr (raw[6 := y, 7 := z]) # rest\<rparr>)]\<rparr>) handle =
            plugin_poll e w handle"
    if yz: "0 \<le> y \<and> y < 256 \<and> 0 \<le> z \<and> z < 256" for y z
  proof -
    let ?raw = "raw[6 := y, 7 := z]"
    let ?bus = "bus\<lparr>replies := wake # Inr x # Inr ?raw # rest\<rparr>"
    let ?w = "w\<lparr>heap := (heap w)[b := OBus ?bus]\<rparr>"
    have idle: "map bus_idle (heap ?w) = map bus_idle (heap w)"
      using map_bus_idle_update [OF assms(2), of ?bus] by simp
    have p: "poll_prelude e (heap ?w) handle = Inr (PRef b, sa, an)"
      using poll_prelude_idle [OF idle] assms(1) by simp
    have d: "deref (heap ?w) b = Some (OBus ?bus)"
      using deref_update_bus [OF assms(2)] by simp
    have r: "replies ?bus = wake # Inr x # Inr ?raw # rest"
      by simp
    have len: "length ?raw = 8"
      using assms(4) by simp
    have rng: "list_all (\<lambda>x. 0 \<le> x \<and> x < 256) ?raw"
      using assms(5) yz
      by (auto simp: list_all_iff dest!: set_update_subset_insert [THEN subsetD])
    have b: "b < length (heap w)"
      using assms(2) by (simp add: deref_def split: if_splits)
    show ?thesis
      using plugin_poll_ok [OF p d r len rng assms(6,7)] ok b assms(4)
      by simp
  qed
  from ok other show ?thesis by simp
qed

theorem poll_ignores_checksum_mismatch_witness:
  "fst (plugin_poll example_env
          (example_world ''0x5C'' [Inl OSError, Inr [], Inr [3, 4, 1, 2, 1, 8, 0, 0]]) (PRef 3)) =
     Inr \<lparr>asset = ''am2315/0x5C/'', timestamp = ''2018-05-01 10:00:00.000000+00:00'',
          key = ''0f1e2d3c-4b5a-4978-8695-a4b3c2d1e0f9'',
          readings = \<lparr>temperature = PyFloat False 7430939385161318 (- 48),
                      humidity = PyFloat False 7262054399134925 (- 48)\<rparr>\<rparr>
   \<and> logged (snd (plugin_poll example_env
          (example_world ''0x5C'' [Inl OSError, Inr [], Inr [3, 4, 1, 2, 1, 8, 0, 0]]) (PRef 3))) = []"
proof -
  let ?rs = "[Inl OSError, Inr [], Inr [3, 4, 1, 2, 1, 8, 0, 0]]"
  have p: "poll_prelude example_env (heap (example_world ''0x5C'' ?rs)) (PRef 3) =
             Inr (PRef 2, PStr ''0x5c'', ''am2315/0x5C/'')"
    by code_simp
  have d: "deref (heap (example_world ''0x5C'' ?rs)) 2 =
             Some (OBus \<lparr>busnum = 1, opened = True, replies = ?rs, calls = []\<rparr>)"
    by (simp add: example_world_def deref_def)
  have m: "checksum_mismatch [3, 4, 1, 2, 1, 8, 0, 0] = Inr True"
    by code_simp
  have l: "logged (example_world ''0x5C'' ?rs) = []"
    by (simp add: example_world_def)
  have "fst (plugin_poll example_env (example_world ''0x5C'' ?rs) (PRef 3)) =
           Inr \<lparr>asset = ''am2315/0x5C/'', timestamp = ''2018-05-01 10:00:00.000000+00:00'',
                key = ''0f1e2d3c-4b5a-4978-8695-a4b3c2d1e0f9'',
                readings = \<lparr>temperature = round_quotient ([3, 4, 1, 2, 1, 8, 0, 0] ! 4 * 256 + [3, 4, 1, 2, 1, 8, 0, 0] ! 5) 10,
                            humidity = round_quotient ([3, 4, 1, 2, 1, 8, 0, 0] ! 2 * 256 + [3, 4, 1, 2, 1, 8, 0, 0] ! 3) 10\<rparr>\<rparr>
       \<and> logged (snd (plugin_poll example_env (example_world ''0x5C'' ?rs) (PRef 3))) =
           logged (example_world ''0x5C'' ?rs)"
    using poll_ignores_checksum_mismatch [OF p d _ _ _ _ _ m, of "Inl OSError" "[]" "[]"
        "''2018-05-01 10:00:00.000000+00:00''" "''0f1e2d3c-4b5a-4978-8695-a4b3c2d1e0f9''"]
    by (simp add: example_env_def)
  moreover have "round_quotient 264 10 = PyFloat False 7430939385161318 (- 48)"
    by code_simp
  moreover have "round_quotient 258 10 = PyFloat False 7262054399134925 (- 48)"
    by code_simp
  ultimately show ?thesis using l by simp
qed






text \<open>
  C5 (amended). The asset name of the reading is the configured template with the token
  \<open>%M\<close> substituted by the configured address string as it is written in the
  configuration: a template that is pieces free of the token with \<open>%M\<close> between
  them becomes these pieces with the address between them, and every template is such
  pieces. So \<open>am2315/%M/\<close> becomes \<open>am2315/\<close>, the address, \<open>/\<close> (for
  \<open>0x5C\<close>: \<open>am2315/0x5C/\<close>), one substitution, and what else a piece holds,
  other \<open>%\<close>-sequences too, is kept.
\<close>

theorem poll_asset_name:
  assumes "subscript (heap w) handle ''bus'' = Inr (PRef b)"
    and "subscript (heap w) handle ''i2cAddress'' = Inr item"
    and "subscript (heap w) item ''value'' = Inr (PStr addr)"
    and "int16_of_string addr = Inr n"
    and "subscript (heap w) handle ''assetName'' = Inr an"
    and "subscript (heap w) an ''value'' = Inr (PStr tmpl)"
    and "deref (heap w) b = Some (OBus bus)"
    and "replies bus = wake # Inr x # Inr raw # rest"
    and "length raw = 8" and "list_all (\<lambda>x. 0 \<le> x \<and> x < 256) raw"
    and "local_timestamp e = Inr ts" and "uuid4 e = Inr k"
  shows "(\<forall>ps. ps \<noteq> [] \<and> (\<forall>p\<in>set ps. \<not> sublist ''%M'' p) \<and> tmpl = str_join ''%M'' ps \<longrightarrow>
            map_sum id asset (fst (plugin_poll e w handle)) = Inr (str_join addr ps))
       \<and> (\<exists>ps. ps \<noteq> [] \<and> (\<forall>p\<in>set ps. \<not> sublist ''%M'' p) \<and> tmpl = str_join ''%M'' ps)
       \<and> (tmpl = ''am2315/%M/'' \<longrightarrow>
            map_sum id asset (fst (plugin_poll e w handle)) = Inr (''am2315/'' @ addr @ ''/''))"
proof -
  have p: "poll_prelude e (heap w) handle = Inr (PRef b, PStr (py_hex n), replace_M addr tmpl)"
    using poll_prelude_ok [OF assms(1-6), of e] by (simp add: py_format_def)
  have a: "map_sum id asset (fst (plugin_poll e w handle)) = Inr (replace_M addr tmpl)"
    by (simp add: plugin_poll_ok [OF p assms(7-12)])
  have j: "map_sum id asset (fst (plugin_poll e w handle)) = Inr (str_join addr ps)"
    if "ps \<noteq> []" "\<forall>p\<in>set ps. \<not> sublist ''%M'' p" "tmpl = str_join ''%M'' ps" for ps
    using a that by (simp add: replace_M_join)
  have d: "replace_M addr ''am2315/%M/'' = ''am2315/'' @ addr @ ''/''"
    by simp
  from a d j split_on_token [of tmpl] show ?thesis
    by auto
qed


theorem poll_asset_name_witness:
  "map_sum id asset
     (fst (plugin_poll example_env
        (example_world ''0x5C'' [Inl OSError, Inr [], Inr example_response]) (PRef 3))) =
   Inr ''am2315/0x5C/''
   \<and> map_sum id asset
     (fst (plugin_poll example_env
        ((example_world ''0x5C'' [Inl OSError, Inr [], Inr example_response])
           \<lparr>heap := (heap (example_world ''0x5C'' [Inl OSError, Inr [], Inr example_response]))
              [0 := ODict [(''value'', PStr ''%M-%m-%%M'')]]\<rparr>) (PRef 3))) =
   Inr ''0x5C-%m-%0x5C''"
proof -
  let ?rs = "[Inl OSError, Inr [], Inr example_response]"
  let ?w = "example_world ''0x5C'' ?rs"
  let ?h = "heap ?w"
  let ?w2 = "?w\<lparr>heap := ?h[0 := ODict [(''value'', PStr ''%M-%m-%%M'')]]\<rparr>"
  let ?h2 = "heap ?w2"
  have s: "subscript ?h (PRef 3) ''bus'' = Inr (PRef 2)"
    "subscript ?h (PRef 3) ''i2cAddress'' = Inr (PRef 1)"
    "subscript ?h (PRef 1) ''value'' = Inr (PStr ''0x5C'')"
    "subscript ?h (PRef 3) ''assetName'' = Inr (PRef 0)"
    "subscript ?h (PRef 0) ''value'' = Inr (PStr ''am2315/%M/'')"
    by (simp_all add: example_world_def subscript_def deref_def)
  have s2: "subscript ?h2 (PRef 3) ''bus'' = Inr (PRef 2)"
    "subscript ?h2 (PRef 3) ''i2cAddress'' = Inr (PRef 1)"
    "subscript ?h2 (PRef 1) ''value'' = Inr (PStr ''0x5C'')"
    "subscript ?h2 (PRef 3) ''assetName'' = Inr (PRef 0)"
    "subscript ?h2 (PRef 0) ''value'' = Inr (PStr ''%M-%m-%%M'')"
    by (simp_all add: example_world_def subscript_def deref_def)
  have n: "int16_of_string ''0x5C'' = Inr 92"
    by code_simp
  have d: "deref ?h 2 = Some (OBus \<lparr>busnum = 1, opened = True, replies = ?rs, calls = []\<rparr>)"
    by (simp add: example_world_def deref_def)
  have d2: "deref ?h2 2 = Some (OBus \<lparr>busnum = 1, opened = True, replies = ?rs, calls = []\<rparr>)"
    by (simp add: example_world_def deref_def)
  have r: "length example_response = 8" "list_all (\<lambda>x. 0 \<le> x \<and> x < 256) example_response"
    by (simp_all add: example_response_def)
  note t = poll_asset_name [OF s(1,2,3) n s(4,5) d _ r, where e = example_env
      and wake = "Inl OSError" and x = "[]" and rest = "[]"
      and ts = "''2018-05-01 10:00:00.000000+00:00''"
      and k = "''0f1e2d3c-4b5a-4978-8695-a4b3c2d1e0f9''"]
  have a: "map_sum id asset (fst (plugin_poll example_env ?w (PRef 3))) =
          Inr (''am2315/'' @ ''0x5C'' @ ''/'')"
    by (rule t [THEN conjunct2, THEN conjunct2, rule_format]) (simp_all add: example_env_def)
  note t2 = poll_asset_name [OF s2(1,2,3) n s2(4,5) d2 _ r, where e = example_env
      and wake = "Inl OSError" and x = "[]" and rest = "[]"
      and ts = "''2018-05-01 10:00:00.000000+00:00''"
      and k = "''0f1e2d3c-4b5a-4978-8695-a4b3c2d1e0f9''"]
  have "map_sum id asset (fst (plugin_poll example_env ?w2 (PRef 3))) =
          Inr (str_join ''0x5C'' [[], ''-%m-%'', []])"
    by (rule t2 [THEN conjunct1, rule_format])
       (simp_all add: example_env_def sublist_Cons_right)
  with a show ?thesis by simp
qed

theorem poll_asset_name_counterexample:
  "map_sum id asset
     (fst (plugin_poll example_env
        (example_world ''0x5C'' [Inl OSError, Inr [], Inr example_response]) (PRef 3)))
   \<noteq> Inr ''am2315/0x5c/''"
  by code_simp

lemma poll_prelude_address:
  "poll_prelude e h handle = Inr (bus, sa, an) \<Longrightarrow> \<exists>n. sa = PStr (py_hex n)"
  by (auto simp: poll_prelude_def try_bind_def split: sum.splits pyval.splits)

text \<open>
  C6 (the code at the default configuration). With \<open>i2cAddress\<close> \<open>0x5C\<close> the three calls
  the poll makes on the bus carry the string \<open>0x5c\<close> as device address, not the
  number 92.
\<close>

theorem poll_passes_address_as_text:
  "heap (snd (plugin_poll example_env
       (example_world ''0x5C'' [Inl OSError, Inr [], Inr example_response]) (PRef 3))) ! 2 =
   OBus \<lparr>busnum = 1, opened = True, replies = [],
         calls = [WriteBlock (PStr ''0x5c'') 3 [0, 4], WriteBlock (PStr ''0x5c'') 3 [0, 4],
                  ReadBlock (PStr ''0x5c'') 3 8]\<rparr>"
  by code_simp

subsection \<open>The claims about the handle\<close>

lemma bus_idle_list: "bus_idle x = OList vs \<longleftrightarrow> x = OList vs"
  by (cases x) (auto simp: bus_idle_def)

lemma deref_list_idle:
  assumes "map bus_idle h' = map bus_idle h"
  shows "deref h' a = Some (OList vs) \<longleftrightarrow> deref h a = Some (OList vs)"
proof -
  from assms have len: "length h' = length h"
    by (metis length_map)
  show ?thesis
  proof (cases "a < length h")
    case True
    then have "bus_idle (h' ! a) = bus_idle (h ! a)"
      using assms len by (metis nth_map)
    then show ?thesis
      using True len by (simp add: deref_def) (metis bus_idle_list)
  next
    case False
    then show ?thesis using len by (simp add: deref_def)
  qed
qed

text \<open>
  C10. \<open>plugin_poll\<close> leaves the handle as it was, whether it returns a reading or
  raises: every lookup \<open>x[k]\<close> in the handle or in a configuration entry gives what it
  gave before, every dict and list of the store is unchanged, and of a bus object only the
  traffic with the device has moved on.
\<close>

theorem poll_keeps_handle:
  "subscript (heap (snd (plugin_poll e w handle))) x k = subscript (heap w) x k
   \<and> (deref (heap (snd (plugin_poll e w handle))) a = Some (ODict kvs)
        \<longleftrightarrow> deref (heap w) a = Some (ODict kvs))
   \<and> (deref (heap (snd (plugin_poll e w handle))) a = Some (OList vs)
        \<longleftrightarrow> deref (heap w) a = Some (OList vs))
   \<and> map bus_idle (heap (snd (plugin_poll e w handle))) = map bus_idle (heap w)"
proof -
  note i = plugin_poll_idle [of e w handle]
  show ?thesis
    using subscript_idle [OF i, of x k] deref_dict_idle [OF i, of a kvs]
      deref_list_idle [OF i, of a vs] i
    by blast
qed

text \<open>
  C9 (amended). \<open>plugin_shutdown\<close> writes one log record and returns None; the store,
  and with it every field of the handle and the state of its transport, is left as it
  was.
\<close>

theorem shutdown_only_logs:
  "plugin_shutdown w handle =
     (Inr PNone, w\<lparr>logged := logged w @ [LogInfo ''AM2315 poll plugin shut down.'' []]\<rparr>)
   \<and> heap (snd (plugin_shutdown w handle)) = heap w
   \<and> transport_released (heap (snd (plugin_shutdown w handle))) handle =
       transport_released (heap w) handle"
  by (simp add: plugin_shutdown_def)

theorem shutdown_only_logs_counterexample:
  "\<not> transport_released (heap (snd (plugin_shutdown (example_world ''0x5C'' []) (PRef 3)))) (PRef 3)"
  by code_simp

subsection \<open>copy.deepcopy on configuration documents\<close>

lemma docs_at_length: "docs_at h vs ts A \<Longrightarrow> length vs = length ts"
  by (induction vs ts A rule: doc_at_docs_at.inducts(2)) simp_all

lemma doc_at_finite: "doc_at h v t A \<Longrightarrow> finite A"
  and docs_at_finite: "docs_at h vs ts B \<Longrightarrow> finite B"
  by (induction rule: doc_at_docs_at.inducts) simp_all

lemma doc_at_alloc: "doc_at h v t A \<Longrightarrow> a \<in> A \<Longrightarrow> a < length h"
  and docs_at_alloc: "docs_at h vs ts B \<Longrightarrow> a \<in> B \<Longrightarrow> a < length h"
  by (induction rule: doc_at_docs_at.inducts) (auto simp: deref_def split: if_splits)

lemma doc_at_mono:
  "doc_at h v t A \<Longrightarrow> (\<And>a. a \<in> A \<Longrightarrow> deref h' a = deref h a) \<Longrightarrow> doc_at h' v t A"
  and docs_at_mono:
  "docs_at h vs ts B \<Longrightarrow> (\<And>a. a \<in> B \<Longrightarrow> deref h' a = deref h a) \<Longrightarrow> docs_at h' vs ts B"
proof (induction rule: doc_at_docs_at.inducts)
  case (doc_list a vs ts A)
  then show ?case by (auto intro!: doc_at_docs_at.intros)
next
  case (doc_dict a kvs ts A)
  then show ?case by (auto intro!: doc_at_docs_at.intros)
next
  case (docs_cons v t A vs ts B)
  then show ?case by (auto intro!: doc_at_docs_at.intros)
qed (auto intro: doc_at_docs_at.intros)


lemma deref_append: "a < length h \<Longrightarrow> deref (h @ h2) a = deref h a"
  by (simp add: deref_def nth_append)

lemma deref_Some_less: "deref h a = Some x \<Longrightarrow> a < length h"
  by (simp add: deref_def split: if_splits)

lemma doc_at_Some: "doc_at h v t A \<Longrightarrow> a \<in> A \<Longrightarrow> \<exists>x. deref h a = Some x"
  by (drule (1) doc_at_alloc) (simp add: deref_def)

lemma docs_at_Some: "docs_at h vs ts B \<Longrightarrow> a \<in> B \<Longrightarrow> \<exists>x. deref h a = Some x"
  by (drule (1) docs_at_alloc) (simp add: deref_def)

lemma deepcopy_doc:
  "doc_at h0 v t A \<Longrightarrow> card A < n \<Longrightarrow> fst ` set m \<inter> A = {} \<Longrightarrow>
     (\<And>a. a \<in> A \<Longrightarrow> deref h a = deref h0 a) \<Longrightarrow>
     \<exists>m' h2 v' A'. deepcopy n m h v = Some (Inr v', m', h @ h2)
        \<and> doc_at (h @ h2) v' t A' \<and> A' \<subseteq> {length h..<length h + length h2}
        \<and> fst ` set m' = fst ` set m \<union> A"
  and copy_values_docs:
  "docs_at h0 vs ts B \<Longrightarrow> card B < n \<Longrightarrow> fst ` set m \<inter> B = {} \<Longrightarrow>
     (\<And>a. a \<in> B \<Longrightarrow> deref h a = deref h0 a) \<Longrightarrow>
     \<exists>m' h2 vs' B'. copy_values n m h vs = Some (Inr vs', m', h @ h2)
        \<and> docs_at (h @ h2) vs' ts B' \<and> B' \<subseteq> {length h..<length h + length h2}
        \<and> fst ` set m' = fst ` set m \<union> B"
proof (induction arbitrary: n m h and n m h rule: doc_at_docs_at.inducts)
  case doc_none
  then obtain k where "n = Suc k" by (cases n) auto
  then have "deepcopy n m h PNone = Some (Inr PNone, m, h @ [])" by simp
  then show ?case by (fastforce intro: doc_at_docs_at.intros)
next
  case (doc_int i)
  then obtain k where "n = Suc k" by (cases n) auto
  then have "deepcopy n m h (PInt i) = Some (Inr (PInt i), m, h @ [])" by simp
  then show ?case by (fastforce intro: doc_at_docs_at.intros)
next
  case (doc_str s)
  then obtain k where "n = Suc k" by (cases n) auto
  then have "deepcopy n m h (PStr s) = Some (Inr (PStr s), m, h @ [])" by simp
  then show ?case by (fastforce intro: doc_at_docs_at.intros)
next
  case (doc_list a vs ts A)
  have fin: "finite A" using doc_list.IH(2) by (rule docs_at_finite)
  with doc_list.prems(1) doc_list.hyps(1) obtain k where n: "n = Suc k" and k: "card A < k"
    by (cases n) auto
  have memo: "map_of m a = None"
    using doc_list.prems(2) by (auto simp: map_of_eq_None_iff)
  have da: "deref h a = Some (OList vs)"
    using doc_list.prems(3) [of a] doc_list.IH(1) by simp
  let ?y = "length h"
  let ?h1 = "h @ [OList []]"
  have m1: "fst ` set ((a, ?y) # m) \<inter> A = {}"
    using doc_list.prems(2) doc_list.hyps(1) by auto
  have h1: "deref ?h1 b = deref h0 b" if "b \<in> A" for b
  proof -
    from that have e: "deref h b = deref h0 b" using doc_list.prems(3) by simp
    from docs_at_Some [OF doc_list.IH(2) that] e have "b < length h"
      by (auto dest: deref_Some_less)
    then show ?thesis using e by (simp add: deref_append)
  qed
  from doc_list.IH(3) [OF k m1 h1]
  obtain m' h2 vs' B' where
    c: "copy_values k ((a, ?y) # m) ?h1 vs = Some (Inr vs', m', ?h1 @ h2)"
    and d: "docs_at (?h1 @ h2) vs' ts B'"
    and f: "B' \<subseteq> {length ?h1..<length ?h1 + length h2}"
    and g: "fst ` set m' = fst ` set ((a, ?y) # m) \<union> A"
    by blast
  let ?h' = "(?h1 @ h2)[?y := OList vs']"
  have eq: "?h' = h @ (OList vs' # h2)"
    by (simp add: list_update_append)
  have res: "deepcopy n m h (PRef a) = Some (Inr (PRef ?y), m', h @ (OList vs' # h2))"
    using n memo da c eq by simp
  have y: "?y \<notin> B'" using f by auto
  have d': "docs_at (h @ (OList vs' # h2)) vs' ts B'"
  proof (rule docs_at_mono [OF d])
    fix b assume "b \<in> B'"
    with f have "b \<noteq> ?y" by auto
    then show "deref (h @ (OList vs' # h2)) b = deref (?h1 @ h2) b"
      by (simp add: deref_def nth_append)
  qed
  have "deref (h @ (OList vs' # h2)) ?y = Some (OList vs')"
    by (simp add: deref_def)
  then have doc: "doc_at (h @ (OList vs' # h2)) (PRef ?y) (JList ts) (insert ?y B')"
    using d' y by (rule doc_at_docs_at.doc_list)
  have sub: "insert ?y B' \<subseteq> {length h..<length h + length (OList vs' # h2)}"
    using f by auto
  have mm: "fst ` set m' = fst ` set m \<union> insert a A"
    using g by auto
  from res doc sub mm show ?case by blast
next
  case (doc_dict a kvs ts A)
  have fin: "finite A" using doc_dict.IH(2) by (rule docs_at_finite)
  with doc_dict.prems(1) doc_dict.hyps(2) obtain k where n: "n = Suc k" and k: "card A < k"
    by (cases n) auto
  have memo: "map_of m a = None"
    using doc_dict.prems(2) by (auto simp: map_of_eq_None_iff)
  have da: "deref h a = Some (ODict kvs)"
    using doc_dict.prems(3) [of a] doc_dict.IH(1) by simp
  let ?y = "length h"
  let ?h1 = "h @ [ODict []]"
  have m1: "fst ` set ((a, ?y) # m) \<inter> A = {}"
    using doc_dict.prems(2) doc_dict.hyps(2) by auto
  have h1: "deref ?h1 b = deref h0 b" if "b \<in> A" for b
  proof -
    from that have e: "deref h b = deref h0 b" using doc_dict.prems(3) by simp
    from docs_at_Some [OF doc_dict.IH(2) that] e have "b < length h"
      by (auto dest: deref_Some_less)
    then show ?thesis using e by (simp add: deref_append)
  qed
  from doc_dict.IH(3) [OF k m1 h1]
  obtain m' h2 vs' B' where
    c: "copy_values k ((a, ?y) # m) ?h1 (map snd kvs) = Some (Inr vs', m', ?h1 @ h2)"
    and d: "docs_at (?h1 @ h2) vs' ts B'"
    and f: "B' \<subseteq> {length ?h1..<length ?h1 + length h2}"
    and g: "fst ` set m' = fst ` set ((a, ?y) # m) \<union> A"
    by blast
  let ?new = "ODict (zip (map fst kvs) vs')"
  have eq: "(?h1 @ h2)[?y := ?new] = h @ (?new # h2)"
    by (simp add: list_update_append)
  have res: "deepcopy n m h (PRef a) = Some (Inr (PRef ?y), m', h @ (?new # h2))"
    using n memo da c eq by simp
  have y: "?y \<notin> B'" using f by auto
  have len: "length vs' = length kvs"
    using docs_at_length [OF d] docs_at_length [OF doc_dict.IH(2)] by simp
  have d': "docs_at (h @ (?new # h2)) vs' ts B'"
  proof (rule docs_at_mono [OF d])
    fix b assume "b \<in> B'"
    with f have "b \<noteq> ?y" by auto
    then show "deref (h @ (?new # h2)) b = deref (?h1 @ h2) b"
      by (simp add: deref_def nth_append)
  qed
  have dy: "deref (h @ (?new # h2)) ?y = Some (ODict (zip (map fst kvs) vs'))"
    by (simp add: deref_def)
  have ks: "map fst (zip (map fst kvs) vs') = map fst kvs"
    and vs: "map snd (zip (map fst kvs) vs') = vs'"
    using len by simp_all
  have "doc_at (h @ (?new # h2)) (PRef ?y)
          (JDict (zip (map fst (zip (map fst kvs) vs')) ts)) (insert ?y B')"
    using dy
  proof (rule doc_at_docs_at.doc_dict)
    show "distinct (map fst (zip (map fst kvs) vs'))"
      using doc_dict.hyps(1) ks by simp
    show "docs_at (h @ (?new # h2)) (map snd (zip (map fst kvs) vs')) ts B'"
      using d' vs by simp
    show "?y \<notin> B'" by (rule y)
  qed
  then have doc: "doc_at (h @ (?new # h2)) (PRef ?y) (JDict (zip (map fst kvs) ts)) (insert ?y B')"
    using ks by simp
  have sub: "insert ?y B' \<subseteq> {length h..<length h + length (?new # h2)}"
    using f by auto
  have mm: "fst ` set m' = fst ` set m \<union> insert a A"
    using g by auto
  from res doc sub mm show ?case by blast
next
  case docs_nil
  have "copy_values n m h [] = Some (Inr [], m, h @ [])" by simp
  then show ?case by (fastforce intro: doc_at_docs_at.intros)
next
  case (docs_cons v t A vs ts B)
  have fa: "finite A" using docs_cons.IH(1) by (rule doc_at_finite)
  have fb: "finite B" using docs_cons.IH(3) by (rule docs_at_finite)
  have ca: "card A < n"
    using docs_cons.prems(1) card_mono [of "A \<union> B" A] fa fb by auto
  have cb: "card B < n"
    using docs_cons.prems(1) card_mono [of "A \<union> B" B] fa fb by auto
  have ma: "fst ` set m \<inter> A = {}" using docs_cons.prems(2) by auto
  have ha: "deref h b = deref h0 b" if "b \<in> A" for b
    using docs_cons.prems(3) that by simp
  from docs_cons.IH(2) [OF ca ma ha]
  obtain m1 h2 v' A' where
    c1: "deepcopy n m h v = Some (Inr v', m1, h @ h2)"
    and d1: "doc_at (h @ h2) v' t A'"
    and f1: "A' \<subseteq> {length h..<length h + length h2}"
    and g1: "fst ` set m1 = fst ` set m \<union> A"
    by blast
  have mb: "fst ` set m1 \<inter> B = {}"
    using g1 docs_cons.prems(2) docs_cons.hyps(1) by auto
  have hb: "deref (h @ h2) b = deref h0 b" if "b \<in> B" for b
  proof -
    from that have e: "deref h b = deref h0 b" using docs_cons.prems(3) by simp
    from docs_at_Some [OF docs_cons.IH(3) that] e have "b < length h"
      by (auto dest: deref_Some_less)
    then show ?thesis using e by (simp add: deref_append)
  qed
  from docs_cons.IH(4) [OF cb mb hb]
  obtain m2 h3 vs' B' where
    c2: "copy_values n m1 (h @ h2) vs = Some (Inr vs', m2, (h @ h2) @ h3)"
    and d2: "docs_at ((h @ h2) @ h3) vs' ts B'"
    and f2: "B' \<subseteq> {length (h @ h2)..<length (h @ h2) + length h3}"
    and g2: "fst ` set m2 = fst ` set m1 \<union> B"
    by blast
  have res: "copy_values n m h (v # vs) = Some (Inr (v' # vs'), m2, h @ (h2 @ h3))"
    using c1 c2 by simp
  have d1': "doc_at (h @ (h2 @ h3)) v' t A'"
  proof (rule doc_at_mono [OF d1])
    fix b assume "b \<in> A'"
    with f1 have "b < length (h @ h2)" by auto
    then show "deref (h @ (h2 @ h3)) b = deref (h @ h2) b"
      using deref_append [of b "h @ h2" h3] by simp
  qed
  have dis: "A' \<inter> B' = {}"
  proof (rule ccontr)
    assume "A' \<inter> B' \<noteq> {}"
    then obtain x where "x \<in> A'" "x \<in> B'" by blast
    with f1 f2 have "x < length h + length h2" "length (h @ h2) \<le> x" by auto
    then show False by simp
  qed
  have "docs_at (h @ (h2 @ h3)) (v' # vs') (t # ts) (A' \<union> B')"
    using d1' _ dis
  proof (rule doc_at_docs_at.docs_cons)
    show "docs_at (h @ (h2 @ h3)) vs' ts B'" using d2 by simp
  qed
  moreover have "A' \<union> B' \<subseteq> {length h..<length h + length (h2 @ h3)}"
    using f1 f2 by auto
  moreover have "fst ` set m2 = fst ` set m \<union> (A \<union> B)"
    using g1 g2 by auto
  ultimately show ?case using res by blast
qed

lemma deepcopy_call_doc:
  assumes "doc_at h v t A"
  shows "\<exists>h2 v' A'. deepcopy_call h v = Some (Inr v', h @ h2)
           \<and> doc_at (h @ h2) v' t A' \<and> A' \<subseteq> {length h..<length h + length h2}"
proof -
  have "A \<subseteq> {..<length h}"
    using doc_at_alloc [OF assms] by auto
  then have "card A \<le> card {..<length h}"
    by (intro card_mono) simp_all
  then have c: "card A < Suc (length h)" by simp
  from deepcopy_doc [OF assms c, of "[]" h]
  obtain m' h2 v' A' where "deepcopy (Suc (length h)) [] h v = Some (Inr v', m', h @ h2)"
    and "doc_at (h @ h2) v' t A'" and "A' \<subseteq> {length h..<length h + length h2}"
    by auto
  then show ?thesis
    by (auto simp: deepcopy_call_def)
qed

lemma doc_at_self: "doc_at h v t A \<Longrightarrow> doc_at h v t A"
  and docs_at_lookup:
  "docs_at h vs ts B \<Longrightarrow> length ks = length vs \<Longrightarrow>
     (case map_of (zip ks ts) k of
        None \<Rightarrow> map_of (zip ks vs) k = None
      | Some t \<Rightarrow> \<exists>v A. map_of (zip ks vs) k = Some v \<and> doc_at h v t A \<and> A \<subseteq> B)"
proof (induction arbitrary: and ks rule: doc_at_docs_at.inducts)
  case (docs_cons v t A vs ts B)
  from docs_cons.prems obtain k' ks' where ks: "ks = k' # ks'" and len: "length ks' = length vs"
    by (cases ks) auto
  have d: "doc_at h v t A"
    using docs_cons.IH by blast
  show ?case
  proof (cases "k' = k")
    case True
    with ks d show ?thesis by auto
  next
    case False
    have "case map_of (zip ks' ts) k of
        None \<Rightarrow> map_of (zip ks' vs) k = None
      | Some t \<Rightarrow> \<exists>v A. map_of (zip ks' vs) k = Some v \<and> doc_at h v t A \<and> A \<subseteq> B"
      using len by (rule docs_cons.IH)
    with False ks show ?thesis
      by (auto split: option.splits)
  qed
qed (auto intro: doc_at_docs_at.intros)


lemma deepcopy_call_dict:
  assumes "doc_at h c (JDict kts) A"
  shows "\<exists>y h2 kvs ts A0. deepcopy_call h c = Some (Inr (PRef y), h @ h2)
           \<and> length h \<le> y \<and> y < length h + length h2
           \<and> deref (h @ h2) y = Some (ODict kvs) \<and> kts = zip (map fst kvs) ts
           \<and> docs_at (h @ h2) (map snd kvs) ts A0 \<and> y \<notin> A0
           \<and> A0 \<subseteq> {length h..<length h + length h2}"
proof -
  from deepcopy_call_doc [OF assms]
  obtain h2 v' A' where c: "deepcopy_call h c = Some (Inr v', h @ h2)"
    and d: "doc_at (h @ h2) v' (JDict kts) A'"
    and f: "A' \<subseteq> {length h..<length h + length h2}"
    by blast
  from d obtain y kvs ts A0 where v': "v' = PRef y" and A': "A' = insert y A0"
    and dy: "deref (h @ h2) y = Some (ODict kvs)" and k: "kts = zip (map fst kvs) ts"
    and ds: "docs_at (h @ h2) (map snd kvs) ts A0" and y: "y \<notin> A0"
    by (rule doc_at_dictE) blast
  from f A' have "length h \<le> y" "y < length h + length h2" "A0 \<subseteq> {length h..<length h + length h2}"
    by auto
  with c v' dy k ds y show ?thesis by blast
qed

lemma dict_fields:
  assumes "docs_at h (map snd kvs) ts A0"
    and "deref h' y = Some (ODict kvs2)"
    and "map_of kvs2 k = map_of kvs k"
    and "\<And>a. a \<in> A0 \<Longrightarrow> deref h' a = deref h a"
  shows "case map_of (zip (map fst kvs) ts) k of
           None \<Rightarrow> subscript h' (PRef y) k = Inl (KeyError k)
         | Some t \<Rightarrow> \<exists>v F. subscript h' (PRef y) k = Inr v \<and> doc_at h' v t F \<and> F \<subseteq> A0"
proof -
  have s: "subscript h' (PRef y) k =
             (case map_of kvs k of Some v \<Rightarrow> Inr v | None \<Rightarrow> Inl (KeyError k))"
    using assms(2,3) by (simp add: subscript_def)
  have z: "zip (map fst kvs) (map snd kvs) = kvs"
    by (rule zip_map_fst_snd)
  have len: "length (map fst kvs) = length (map snd kvs)"
    by simp
  have l: "case map_of (zip (map fst kvs) ts) k of
        None \<Rightarrow> map_of kvs k = None
      | Some t \<Rightarrow> \<exists>v A. map_of kvs k = Some v \<and> doc_at h v t A \<and> A \<subseteq> A0"
    using docs_at_lookup [OF assms(1) len, of k] unfolding z .
  show ?thesis
  proof (cases "map_of (zip (map fst kvs) ts) k")
    case None
    with l s show ?thesis by simp
  next
    case (Some t)
    with l obtain v A where m: "map_of kvs k = Some v" and d: "doc_at h v t A" and a: "A \<subseteq> A0"
      by auto
    have "doc_at h' v t A"
      using d
    proof (rule doc_at_mono)
      fix b assume "b \<in> A"
      with a show "deref h' b = deref h b" using assms(4) by blast
    qed
    with Some m s a show ?thesis by auto
  qed
qed

lemma setitem_dict:
  "deref h y = Some (ODict kvs) \<Longrightarrow>
     setitem h (PRef y) k v = Inr (h[y := ODict (AList.update k v kvs)])"
  by (simp add: setitem_def)

lemma deref_update_same: "y < length h \<Longrightarrow> deref (h[y := x]) y = Some x"
  by (simp add: deref_def)

lemma deref_update_other: "a \<noteq> y \<Longrightarrow> deref (h[y := x]) a = deref h a"
  by (simp add: deref_def)

lemma copy_then_set:
  assumes "doc_at h c (JDict kts) A"
  shows "\<exists>y h1 h2. deepcopy_call h c = Some (Inr (PRef y), h1)
           \<and> length h \<le> y \<and> length h \<le> length h1
           \<and> setitem (h1 @ g h1) (PRef y) ky (f h1) = Inr (h @ h2)
           \<and> length (h @ h2) = length h1 + length (g h1)
           \<and> subscript (h @ h2) (PRef y) ky = Inr (f h1)
           \<and> (\<forall>a. length h1 \<le> a \<longrightarrow> deref (h @ h2) a = deref (h1 @ g h1) a)
           \<and> (\<forall>h' k. k \<noteq> ky \<and> (\<forall>a. length h \<le> a \<longrightarrow> deref h' a = deref (h @ h2) a) \<longrightarrow>
                (case map_of kts k of
                   None \<Rightarrow> subscript h' (PRef y) k = Inl (KeyError k)
                 | Some t \<Rightarrow> \<exists>v F. subscript h' (PRef y) k = Inr v \<and> doc_at h' v t F
                      \<and> F \<subseteq> {length h..<length h + length h2}))"
proof -
  from deepcopy_call_dict [OF assms]
  obtain y h2a kvs ts A0 where c: "deepcopy_call h c = Some (Inr (PRef y), h @ h2a)"
    and y1: "length h \<le> y" and y2: "y < length h + length h2a"
    and dy: "deref (h @ h2a) y = Some (ODict kvs)" and k: "kts = zip (map fst kvs) ts"
    and ds: "docs_at (h @ h2a) (map snd kvs) ts A0" and y: "y \<notin> A0"
    and f: "A0 \<subseteq> {length h..<length h + length h2a}"
    by blast
  let ?h1 = "h @ h2a"
  define xs where "xs = g (h @ h2a)"
  define vl where "vl = f (h @ h2a)"
  let ?new = "ODict (AList.update ky vl kvs)"
  let ?t = "(h2a @ xs)[y - length h := ?new]"
  have dy': "deref (?h1 @ xs) y = Some (ODict kvs)"
    using dy y2 deref_append [of y "h @ h2a" xs] by simp
  have s: "setitem (?h1 @ xs) (PRef y) ky vl = Inr ((?h1 @ xs)[y := ?new])"
    using dy' by (rule setitem_dict)
  have e: "(?h1 @ xs)[y := ?new] = h @ ?t"
    using y1 by (simp add: list_update_append)
  have len: "length (h @ ?t) = length ?h1 + length xs"
    by simp
  have ynew: "deref (h @ ?t) y = Some ?new"
    using y2 e deref_update_same [of y "?h1 @ xs" ?new] by simp
  then have sk: "subscript (h @ ?t) (PRef y) ky = Inr vl"
    by (simp add: subscript_def update_conv')
  have oth: "deref (h @ ?t) a = deref (?h1 @ xs) a" if "a \<noteq> y" for a
    using that e deref_update_other [of a y "?h1 @ xs" ?new] by simp
  have ext: "deref (h @ ?t) a = deref (?h1 @ xs) a" if "length ?h1 \<le> a" for a
    using that y2 by (intro oth) simp
  have fields: "case map_of kts k of
                   None \<Rightarrow> subscript h' (PRef y) k = Inl (KeyError k)
                 | Some t \<Rightarrow> \<exists>v F. subscript h' (PRef y) k = Inr v \<and> doc_at h' v t F
                      \<and> F \<subseteq> {length h..<length h + length ?t}"
    if kk: "k \<noteq> ky" and agree: "\<forall>a. length h \<le> a \<longrightarrow> deref h' a = deref (h @ ?t) a" for h' k
  proof -
    have d2: "deref h' y = Some ?new"
      using agree y1 ynew by simp
    have m: "map_of (AList.update ky vl kvs) k = map_of kvs k"
      using kk by (simp add: update_conv')
    have a0: "deref h' a = deref ?h1 a" if "a \<in> A0" for a
    proof -
      from that f y have r: "length h \<le> a" "a < length ?h1" "a \<noteq> y" by auto
      then have "deref h' a = deref (?h1 @ xs) a"
        using agree oth by simp
      with r show ?thesis using deref_append [of a "h @ h2a" xs] by simp
    qed
    from dict_fields [OF ds d2 m a0]
    have g: "case map_of kts k of
           None \<Rightarrow> subscript h' (PRef y) k = Inl (KeyError k)
         | Some t \<Rightarrow> \<exists>v F. subscript h' (PRef y) k = Inr v \<and> doc_at h' v t F \<and> F \<subseteq> A0"
      unfolding k .
    have "A0 \<subseteq> {length h..<length h + length ?t}"
      using f by auto
    with g show ?thesis
      by (auto split: option.splits)
  qed
  have l1: "length h \<le> length ?h1" by simp
  have s': "setitem (?h1 @ xs) (PRef y) ky vl = Inr (h @ ?t)"
    by (simp only: s e)
  have ext': "\<forall>a. length ?h1 \<le> a \<longrightarrow> deref (h @ ?t) a = deref (?h1 @ xs) a"
    using ext by blast
  have fields': "\<forall>h' k. k \<noteq> ky \<and> (\<forall>a. length h \<le> a \<longrightarrow> deref h' a = deref (h @ ?t) a) \<longrightarrow>
                (case map_of kts k of
                   None \<Rightarrow> subscript h' (PRef y) k = Inl (KeyError k)
                 | Some t \<Rightarrow> \<exists>v F. subscript h' (PRef y) k = Inr v \<and> doc_at h' v t F
                      \<and> F \<subseteq> {length h..<length h + length ?t})"
    using fields by blast
  show ?thesis
    apply (rule exI [of _ y])
    apply (rule exI [of _ ?h1])
    apply (rule exI [of _ ?t])
    apply (fold xs_def vl_def)
    apply (intro conjI)
           apply (rule c)
          apply (rule y1)
         apply (rule l1)
        apply (rule s')
       apply (rule len)
      apply (rule sk)
     apply (rule ext')
    apply (rule fields')
    done
qed

subsection \<open>The example configuration\<close>

lemma plugin_init_example:
  "plugin_init example_env example_config_world (PRef 2) = Some (Inr (PRef 3), example_session)"
  by code_simp

lemma doc_dictI:
  assumes "deref h a = Some (ODict kvs)" and "distinct (map fst kvs)"
    and "docs_at h (map snd kvs) ts A" and "a \<notin> A"
    and "kts = zip (map fst kvs) ts" and "B = insert a A"
  shows "doc_at h (PRef a) (JDict kts) B"
  using assms doc_at_docs_at.doc_dict by simp

lemma docs_consI:
  assumes "doc_at h v t A" and "docs_at h vs ts B" and "A \<inter> B = {}" and "C = A \<union> B"
  shows "docs_at h (v # vs) (t # ts) C"
  using assms doc_at_docs_at.docs_cons by simp

lemma docs_two_strings: "docs_at h [PStr a, PStr b] [JStr a, JStr b] {}"
proof -
  have "docs_at h [PStr b] [JStr b] {}"
    by (rule docs_consI [OF doc_str docs_nil]) simp_all
  then show ?thesis
    by (rule docs_consI [OF doc_str]) simp_all
qed

lemma example_config_is_doc:
  "doc_at (heap example_config_world @ xs) (PRef 2) (JDict example_config_doc) {0, 1, 2}"
proof -
  let ?h = "heap example_config_world @ xs"
  have i0: "doc_at ?h (PRef 0)
              (JDict [(''default'', JStr ''am2315/%M/''), (''value'', JStr ''am2315/%M/'')]) {0}"
    by (rule doc_dictI [where kvs = "[(''default'', PStr ''am2315/%M/''), (''value'', PStr ''am2315/%M/'')]"
          and ts = "[JStr ''am2315/%M/'', JStr ''am2315/%M/'']" and A = "{}"])
       (simp_all add: example_config_world_def deref_def docs_two_strings)
  have i1: "doc_at ?h (PRef 1)
              (JDict [(''default'', JStr ''0x5C''), (''value'', JStr ''0x5C'')]) {1}"
    by (rule doc_dictI [where kvs = "[(''default'', PStr ''0x5C''), (''value'', PStr ''0x5C'')]"
          and ts = "[JStr ''0x5C'', JStr ''0x5C'']" and A = "{}"])
       (simp_all add: example_config_world_def deref_def docs_two_strings)
  have "docs_at ?h [PRef 1]
          [JDict [(''default'', JStr ''0x5C''), (''value'', JStr ''0x5C'')]] {1}"
    by (rule docs_consI [OF i1 docs_nil]) simp_all
  then have items: "docs_at ?h [PRef 0, PRef 1]
          [JDict [(''default'', JStr ''am2315/%M/''), (''value'', JStr ''am2315/%M/'')],
           JDict [(''default'', JStr ''0x5C''), (''value'', JStr ''0x5C'')]] {0, 1}"
    by (rule docs_consI [OF i0]) auto
  show ?thesis
    by (rule doc_dictI [where kvs = "[(''assetName'', PRef 0), (''i2cAddress'', PRef 1)]"
          and A = "{0, 1}", OF _ _ _ _ _ _])
       (use items in \<open>auto simp: example_config_world_def example_config_doc_def deref_def\<close>)
qed

subsection \<open>The claims about plugin_init and plugin_reconfigure\<close>

text \<open>
  C8. \<open>plugin_init\<close> returns a new dict that holds a deep copy of the configuration and,
  under \<open>'bus'\<close>, one newly opened SMBus object: every other key of the handle has the
  document the input has under that key, a key the input lacks is absent, and the copy
  lives in objects created by the call, so that whatever is done afterwards to the
  objects the caller held leaves the handle's fields as they are.
\<close>

theorem init_copies_config:
  assumes "doc_at (heap w) config (JDict kts) A" and "device e = Inr rs"
  shows "\<exists>hd b h2.
      plugin_init e w config =
        Some (Inr (PRef hd),
              w\<lparr>heap := heap w @ h2, logged := logged w @ [LogInfo ''AM2315 initialized'' []]\<rparr>)
      \<and> length (heap w) \<le> hd \<and> length (heap w) \<le> b
      \<and> subscript (heap w @ h2) (PRef hd) ''bus'' = Inr (PRef b)
      \<and> deref (heap w @ h2) b =
            Some (OBus \<lparr>busnum = 1, opened = True, replies = rs, calls = []\<rparr>)
      \<and> (\<forall>h' k. k \<noteq> ''bus''
             \<and> (\<forall>a. length (heap w) \<le> a \<longrightarrow> deref h' a = deref (heap w @ h2) a) \<longrightarrow>
           (case map_of kts k of
              None \<Rightarrow> subscript h' (PRef hd) k = Inl (KeyError k)
            | Some t \<Rightarrow> \<exists>v F. subscript h' (PRef hd) k = Inr v \<and> doc_at h' v t F
                 \<and> F \<subseteq> {length (heap w)..<length (heap w) + length h2}))"
proof -
  let ?bus = "OBus \<lparr>busnum = 1, opened = True, replies = rs, calls = []\<rparr>"
  from copy_then_set [OF assms(1), where g = "\<lambda>h1. [?bus]"
      and f = "\<lambda>h1. PRef (length h1)" and ky = "''bus''"]
  obtain y h1 h2 where c: "deepcopy_call (heap w) config = Some (Inr (PRef y), h1)"
    and y: "length (heap w) \<le> y" and l: "length (heap w) \<le> length h1"
    and s: "setitem (h1 @ [?bus]) (PRef y) ''bus'' (PRef (length h1)) = Inr (heap w @ h2)"
    and sk: "subscript (heap w @ h2) (PRef y) ''bus'' = Inr (PRef (length h1))"
    and ext: "\<forall>a. length h1 \<le> a \<longrightarrow> deref (heap w @ h2) a = deref (h1 @ [?bus]) a"
    and fields: "\<forall>h' k. k \<noteq> ''bus''
             \<and> (\<forall>a. length (heap w) \<le> a \<longrightarrow> deref h' a = deref (heap w @ h2) a) \<longrightarrow>
           (case map_of kts k of
              None \<Rightarrow> subscript h' (PRef y) k = Inl (KeyError k)
            | Some t \<Rightarrow> \<exists>v F. subscript h' (PRef y) k = Inr v \<and> doc_at h' v t F
                 \<and> F \<subseteq> {length (heap w)..<length (heap w) + length h2})"
    by blast
  have r: "plugin_init e w config =
        Some (Inr (PRef y),
              w\<lparr>heap := heap w @ h2, logged := logged w @ [LogInfo ''AM2315 initialized'' []]\<rparr>)"
    by (simp add: plugin_init_def c assms(2) s)
  have "deref (h1 @ [?bus]) (length h1) = Some ?bus"
    by (simp add: deref_def)
  with ext have b: "deref (heap w @ h2) (length h1) = Some ?bus"
    by simp
  show ?thesis
    apply (rule exI [of _ y])
    apply (rule exI [of _ "length h1"])
    apply (rule exI [of _ h2])
    apply (intro conjI)
         apply (rule r)
        apply (rule y)
       apply (rule l)
      apply (rule sk)
     apply (rule b)
    apply (rule fields)
    done
qed

theorem init_copies_config_witness:
  "\<exists>hd b w' v F.
      plugin_init example_env example_config_world (PRef 2) = Some (Inr (PRef hd), w')
      \<and> 3 \<le> hd
      \<and> subscript (heap w') (PRef hd) ''bus'' = Inr (PRef b)
      \<and> deref (heap w') b = Some (OBus \<lparr>busnum = 1, opened = True, replies = [], calls = []\<rparr>)
      \<and> subscript (heap w') (PRef hd) ''i2cAddress'' = Inr v
      \<and> doc_at (heap w') v (JDict [(''default'', JStr ''0x5C''), (''value'', JStr ''0x5C'')]) F"
proof -
  have d: "doc_at (heap example_config_world) (PRef 2) (JDict example_config_doc) {0, 1, 2}"
    using example_config_is_doc [of "[]"] by simp
  have e: "device example_env = Inr []"
    by (simp add: example_env_def)
  from init_copies_config [OF d e]
  obtain hd b h2 where r: "plugin_init example_env example_config_world (PRef 2) =
        Some (Inr (PRef hd),
              example_config_world\<lparr>heap := heap example_config_world @ h2,
                 logged := logged example_config_world @ [LogInfo ''AM2315 initialized'' []]\<rparr>)"
    and hd: "length (heap example_config_world) \<le> hd"
    and sb: "subscript (heap example_config_world @ h2) (PRef hd) ''bus'' = Inr (PRef b)"
    and db: "deref (heap example_config_world @ h2) b =
            Some (OBus \<lparr>busnum = 1, opened = True, replies = [], calls = []\<rparr>)"
    and f: "\<forall>h' k. k \<noteq> ''bus''
             \<and> (\<forall>a. length (heap example_config_world) \<le> a \<longrightarrow>
                    deref h' a = deref (heap example_config_world @ h2) a) \<longrightarrow>
           (case map_of example_config_doc k of
              None \<Rightarrow> subscript h' (PRef hd) k = Inl (KeyError k)
            | Some t \<Rightarrow> \<exists>v F. subscript h' (PRef hd) k = Inr v \<and> doc_at h' v t F
                 \<and> F \<subseteq> {length (heap example_config_world)..<length (heap example_config_world) + length h2})"
    by blast
  have m: "map_of example_config_doc ''i2cAddress'' =
             Some (JDict [(''default'', JStr ''0x5C''), (''value'', JStr ''0x5C'')])"
    by (simp add: example_config_doc_def)
  from f [rule_format, of "''i2cAddress''" "heap example_config_world @ h2"] m
  obtain v F where sv: "subscript (heap example_config_world @ h2) (PRef hd) ''i2cAddress'' = Inr v"
    and dv: "doc_at (heap example_config_world @ h2) v
               (JDict [(''default'', JStr ''0x5C''), (''value'', JStr ''0x5C'')]) F"
    by auto
  have len: "3 \<le> hd"
    using hd by (simp add: example_config_world_def)
  let ?w = "example_config_world\<lparr>heap := heap example_config_world @ h2,
                 logged := logged example_config_world @ [LogInfo ''AM2315 initialized'' []]\<rparr>"
  have h: "heap ?w = heap example_config_world @ h2"
    by simp
  show ?thesis
    apply (rule exI [of _ hd])
    apply (rule exI [of _ b])
    apply (rule exI [of _ ?w])
    apply (rule exI [of _ v])
    apply (rule exI [of _ F])
    apply (simp only: h)
    apply (intro conjI)
         apply (rule r)
        apply (rule len)
       apply (rule sb)
      apply (rule db)
     apply (rule sv)
    apply (rule dv)
    done
qed

text \<open>
  C7. \<open>plugin_reconfigure\<close> returns a new dict, a deep copy of \<open>new_config\<close> with
  \<open>'restart'\<close> set to \<open>'no'\<close>: every other key has the document \<open>new_config\<close> has
  under it, a key \<open>new_config\<close> lacks (a field only the old handle had, its bus
  among them) is absent, and the old handle has no part in the result.
\<close>

theorem reconfigure_replaces_handle:
  assumes "doc_at (heap w) new_config (JDict kts) A"
  shows "\<exists>nh h2.
      plugin_reconfigure w handle new_config =
        Some (Inr (PRef nh),
              w\<lparr>heap := heap w @ h2,
                logged := logged w @
                  [LogInfo ''Old config for AM2315 plugin {} \<newline> new config {}''
                     [handle, new_config]]\<rparr>)
      \<and> length (heap w) \<le> nh
      \<and> subscript (heap w @ h2) (PRef nh) ''restart'' = Inr (PStr ''no'')
      \<and> (\<forall>h' k. k \<noteq> ''restart''
             \<and> (\<forall>a. length (heap w) \<le> a \<longrightarrow> deref h' a = deref (heap w @ h2) a) \<longrightarrow>
           (case map_of kts k of
              None \<Rightarrow> subscript h' (PRef nh) k = Inl (KeyError k)
            | Some t \<Rightarrow> \<exists>v F. subscript h' (PRef nh) k = Inr v \<and> doc_at h' v t F
                 \<and> F \<subseteq> {length (heap w)..<length (heap w) + length h2}))
      \<and> (\<forall>other. map_option (\<lambda>(r, w'). (r, heap w')) (plugin_reconfigure w other new_config) =
             Some (Inr (PRef nh), heap w @ h2))"
proof -
  from copy_then_set [OF assms(1), where g = "\<lambda>h1. []"
      and f = "\<lambda>h1. PStr ''no''" and ky = "''restart''"]
  obtain y h1 h2 where c: "deepcopy_call (heap w) new_config = Some (Inr (PRef y), h1)"
    and y: "length (heap w) \<le> y"
    and s: "setitem (h1 @ []) (PRef y) ''restart'' (PStr ''no'') = Inr (heap w @ h2)"
    and sk: "subscript (heap w @ h2) (PRef y) ''restart'' = Inr (PStr ''no'')"
    and fields: "\<forall>h' k. k \<noteq> ''restart''
             \<and> (\<forall>a. length (heap w) \<le> a \<longrightarrow> deref h' a = deref (heap w @ h2) a) \<longrightarrow>
           (case map_of kts k of
              None \<Rightarrow> subscript h' (PRef y) k = Inl (KeyError k)
            | Some t \<Rightarrow> \<exists>v F. subscript h' (PRef y) k = Inr v \<and> doc_at h' v t F
                 \<and> F \<subseteq> {length (heap w)..<length (heap w) + length h2})"
    by blast
  from s have s': "setitem h1 (PRef y) ''restart'' (PStr ''no'') = Inr (heap w @ h2)"
    by simp
  have r: "plugin_reconfigure w hh new_config =
        Some (Inr (PRef y),
              w\<lparr>heap := heap w @ h2,
                logged := logged w @
                  [LogInfo ''Old config for AM2315 plugin {} \<newline> new config {}''
                     [hh, new_config]]\<rparr>)" for hh
    by (simp add: plugin_reconfigure_def c s')
  have o: "\<forall>other. map_option (\<lambda>(r, w'). (r, heap w')) (plugin_reconfigure w other new_config) =
             Some (Inr (PRef y), heap w @ h2)"
    by (simp add: r)
  show ?thesis
    apply (rule exI [of _ y])
    apply (rule exI [of _ h2])
    apply (intro conjI)
        apply (rule r)
       apply (rule y)
      apply (rule sk)
     apply (rule fields)
    apply (rule o)
    done
qed

theorem reconfigure_replaces_handle_witness:
  "\<exists>nh w'.
      plugin_reconfigure example_session (PRef 3) (PRef 2) = Some (Inr (PRef nh), w')
      \<and> 7 \<le> nh
      \<and> subscript (heap w') (PRef nh) ''restart'' = Inr (PStr ''no'')
      \<and> subscript (heap w') (PRef nh) ''bus'' = Inl (KeyError ''bus'')
      \<and> subscript (heap example_session) (PRef 3) ''bus'' = Inr (PRef 6)"
proof -
  have d: "doc_at (heap example_session) (PRef 2) (JDict example_config_doc) {0, 1, 2}"
    using example_config_is_doc by (simp add: example_session_def)
  let ?l = "logged example_session @
                  [LogInfo ''Old config for AM2315 plugin {} \<newline> new config {}''
                     [PRef 3, PRef 2]]"
  from reconfigure_replaces_handle [OF d, of "PRef 3"]
  obtain nh h2 where r: "plugin_reconfigure example_session (PRef 3) (PRef 2) =
        Some (Inr (PRef nh), example_session\<lparr>heap := heap example_session @ h2, logged := ?l\<rparr>)"
    and nh: "length (heap example_session) \<le> nh"
    and sr: "subscript (heap example_session @ h2) (PRef nh) ''restart'' = Inr (PStr ''no'')"
    and f: "\<forall>h' k. k \<noteq> ''restart''
             \<and> (\<forall>a. length (heap example_session) \<le> a \<longrightarrow>
                    deref h' a = deref (heap example_session @ h2) a) \<longrightarrow>
           (case map_of example_config_doc k of
              None \<Rightarrow> subscript h' (PRef nh) k = Inl (KeyError k)
            | Some t \<Rightarrow> \<exists>v F. subscript h' (PRef nh) k = Inr v \<and> doc_at h' v t F
                 \<and> F \<subseteq> {length (heap example_session)..<length (heap example_session) + length h2})"
    by blast
  have m: "map_of example_config_doc ''bus'' = None"
    by (simp add: example_config_doc_def)
  from f [rule_format, of "''bus''" "heap example_session @ h2"] m
  have sb: "subscript (heap example_session @ h2) (PRef nh) ''bus'' = Inl (KeyError ''bus'')"
    by auto
  have len: "7 \<le> nh"
    using nh by (simp add: example_session_def example_config_world_def)
  have old: "subscript (heap example_session) (PRef 3) ''bus'' = Inr (PRef 6)"
    by (simp add: example_session_def example_config_world_def subscript_def deref_def)
  let ?w = "example_session\<lparr>heap := heap example_session @ h2, logged := ?l\<rparr>"
  have h: "heap ?w = heap example_session @ h2"
    by simp
  show ?thesis
    apply (rule exI [of _ nh])
    apply (rule exI [of _ ?w])
    apply (simp only: h)
    apply (intro conjI)
        apply (rule r)
       apply (rule len)
      apply (rule sr)
     apply (rule sb)
    apply (rule old)
    done
qed

end
